theory Spec2Isabelle
  imports Main
begin

section \<open>Errors raised by the interpreter\<close>

text \<open>
  The program is plain Python over unbounded integers, modelled as \<^typ>\<open>int\<close>.
  An exception that ends a call is a value on the left of a sum.
\<close>

datatype py_error = TypeError | ZeroDivisionError | IndexError

section \<open>Integer primitives\<close>

text \<open>
  \<^verbatim>\<open>math.isqrt\<close> is a builtin: the floor of the exact square root of a non-negative
  integer (a negative argument raises; \<open>is_square\<close>, its only caller, excludes it).
  It is computed here digit by digit in base 4; \<open>isqrt_bounds\<close> below shows that
  the result is that floor.
\<close>

definition isqrt_step :: "int \<Rightarrow> int \<Rightarrow> int" where
  "isqrt_step n r = (if (r + 1) * (r + 1) \<le> n then r + 1 else r)"

function isqrt :: "int \<Rightarrow> int" where
  "isqrt n = (if n \<le> 0 then 0 else isqrt_step n (2 * isqrt (n div 4)))"
  by pat_completeness auto
termination
  by (relation "measure nat") auto

declare isqrt.simps [simp del]

text \<open>
  \<^verbatim>\<open>
  def is_square(n):
      if n < 0:
          return False
      root = int(math.isqrt(n))
      return root * root == n
  \<close>
\<close>

definition is_square :: "int \<Rightarrow> bool" where
  "is_square n = (if n < 0 then False
                  else let root = isqrt n in root * root = n)"

text \<open>
  \<^verbatim>\<open>
  def core(a, b):
      g = math.gcd(a, b)
      return (a * b) // (g * g)
  \<close>
  \<^verbatim>\<open>math.gcd\<close> is the non-negative greatest common divisor, as \<^const>\<open>gcd\<close> on
  \<^typ>\<open>int\<close> is; \<^verbatim>\<open>//\<close> raises on a zero divisor, which happens exactly for
  \<open>a = b = 0\<close>.
\<close>

definition core :: "int \<Rightarrow> int \<Rightarrow> py_error + int" where
  "core a b = (let g = gcd a b
               in if g * g = 0 then Inl ZeroDivisionError
                  else Inr ((a * b) div (g * g)))"

section \<open>Admissibility checker\<close>

text \<open>
  \<^verbatim>\<open>itertools.combinations(xs, r)\<close>: the \<open>r\<close>-element subsequences of \<open>xs\<close>, in
  lexicographic order of their positions.
\<close>

fun combinations :: "'a list \<Rightarrow> nat \<Rightarrow> 'a list list" where
  "combinations xs 0 = [[]]"
| "combinations [] (Suc r) = []"
| "combinations (x # xs) (Suc r) =
     map ((#) x) (combinations xs r) @ combinations xs (Suc r)"

text \<open>
  The body of the first loop of \<^verbatim>\<open>check_admissible\<close>: the quadruple
  \<^verbatim>\<open>a, b, c, d = quad\<close> makes the function return \<^verbatim>\<open>False\<close> when its product is a
  square and \<^verbatim>\<open>a * d != b * c\<close>. Every element of \<open>combinations xs 4\<close> has four
  entries (\<open>length_combinations\<close>), so the last case is never taken.
\<close>

definition quad_violates :: "int list \<Rightarrow> bool" where
  "quad_violates quad =
     (case quad of
        [a, b, c, d] \<Rightarrow> is_square (a * b * c * d) \<and> a * d \<noteq> b * c
      | _ \<Rightarrow> False)"

text \<open>
  The pairs visited by
  \<^verbatim>\<open>for i, x in enumerate(A_sorted): for y in A_sorted[i+1:]\<close>, in that order.
\<close>

fun later_pairs :: "'a list \<Rightarrow> ('a \<times> 'a) list" where
  "later_pairs [] = []"
| "later_pairs (x # xs) = map (Pair x) xs @ later_pairs xs"

definition pair_violates :: "int \<times> int \<Rightarrow> bool" where
  "pair_violates p =
     (case p of (x, y) \<Rightarrow>
        (is_square (x * x * x * y) \<and> x * y \<noteq> x * x) \<or>
        (is_square (x * y * y * y) \<and> x * y \<noteq> y * y))"

text \<open>
  \<^verbatim>\<open>
  def check_admissible(A):
      A_sorted = sorted(A)
      for quad in combinations(A_sorted, 4):
          a, b, c, d = quad
          if is_square(a * b * c * d):
              if a * d != b * c:
                  return False
      for i, x in enumerate(A_sorted):
          for y in A_sorted[i+1:]:
              if is_square(x * x * x * y):
                  if x * y != x * x:
                      return False
              if is_square(x * y * y * y):
                  if x * y != y * y:
                      return False
      return True
  \<close>
  The argument is any collection of integers; it is given by a list of its elements,
  which \<^verbatim>\<open>sorted\<close> puts in ascending order. The function returns \<^verbatim>\<open>False\<close> at the
  first violating quadruple or pair, and \<^verbatim>\<open>True\<close> when there is none.
\<close>

definition check_admissible :: "int list \<Rightarrow> bool" where
  "check_admissible A =
     (let A_sorted = sort A
      in if list_ex quad_violates (combinations A_sorted 4) then False
         else if list_ex pair_violates (later_pairs A_sorted) then False
         else True)"

section \<open>Square-free sieve\<close>

text \<open>
  \<^verbatim>\<open>range(start, stop, step)\<close> for a positive step, the only kind the program uses:
  \<open>start, start + step, \<dots>\<close> below \<open>stop\<close>. The ranges with step one,
  \<^verbatim>\<open>range(a, b + 1)\<close>, are written \<open>[a..b]\<close>.
\<close>

function range_step :: "int \<Rightarrow> int \<Rightarrow> int \<Rightarrow> int list" where
  "range_step start stop step =
     (if 0 < step \<and> start < stop then start # range_step (start + step) stop step else [])"
  by pat_completeness auto
termination
  by (relation "measure (\<lambda>(start, stop, step). nat (stop - start))") auto

declare range_step.simps [simp del]

text \<open>
  \<^verbatim>\<open>
  def sieve_square_free(n):
      is_sf = [True] * (n + 1)
      for i in range(2, int(n**0.5) + 1):
          sq = i * i
          for j in range(sq, n + 1, sq):
              is_sf[j] = False
      return [x for x in range(1, n + 1) if is_sf[x]]
  \<close>
  \<open>mark_multiples n i\<close> is the body of the outer loop for one \<open>i\<close>: every index it
  writes is at most \<open>n\<close>, inside the list. \<open>collect_marked\<close> is the final
  comprehension.

  For a negative \<open>n\<close> the power \<^verbatim>\<open>n**0.5\<close> is a complex number and \<^verbatim>\<open>int\<close> raises
  \<^verbatim>\<open>TypeError\<close>. For \<open>n \<ge> 0\<close> the bound \<^verbatim>\<open>int(n**0.5)\<close> is the square root in
  double precision, truncated. It is taken here as \<open>isqrt n\<close>, the floor of the
  exact root: every \<open>n\<close> whose list of \<open>n + 1\<close> flags can be held in memory is an
  exact double whose root is not rounded below that floor, and a bound above the
  floor gives the same result (\<open>sieve_bound_irrelevant\<close> below).
\<close>

definition mark_multiples :: "int \<Rightarrow> int \<Rightarrow> bool list \<Rightarrow> bool list" where
  "mark_multiples n i is_sf =
     fold (\<lambda>j l. l[nat j := False]) (range_step (i * i) (n + 1) (i * i)) is_sf"

definition collect_marked :: "int \<Rightarrow> bool list \<Rightarrow> int list" where
  "collect_marked n is_sf = filter (\<lambda>x. is_sf ! nat x) [1..n]"

definition sieve_square_free :: "int \<Rightarrow> py_error + int list" where
  "sieve_square_free n =
     (if n < 0 then Inl TypeError
      else Inr (collect_marked n
                  (fold (mark_multiples n) [2..isqrt n] (replicate (nat (n + 1)) True))))"

text \<open>
  An integer is square-free when no perfect square greater than one divides it.
\<close>

definition square_free :: "int \<Rightarrow> bool" where
  "square_free x = (\<forall>q. 1 < q * q \<longrightarrow> \<not> q * q dvd x)"

section \<open>Square-free kernel\<close>

text \<open>
  \<^verbatim>\<open>
  def square_free_kernel(m):
      if m == 0:
          return 0
      kernel = 1
      d = 2
      temp = m
      while d * d <= temp:
          if temp % d == 0:
              kernel *= d
              while temp % d == 0:
                  temp //= d
          d += 1
      if temp > 1:
          kernel *= temp
      return kernel
  \<close>
  Both loops are \<^verbatim>\<open>while\<close> loops; a run that never leaves one has the value
  \<open>None\<close>. \<open>strip_factor\<close> is the inner loop and \<open>kernel_loop\<close> the outer one,
  on the variables \<^verbatim>\<open>kernel\<close> (written \<open>kern\<close>), \<open>d\<close> and \<open>temp\<close>; it returns the
  final \<open>kern\<close> and \<open>temp\<close>, from which \<open>finish_kernel\<close> computes the result.
  The divisor \<open>d\<close> starts at \<open>2\<close> and only grows, so \<^verbatim>\<open>%\<close> and \<^verbatim>\<open>//\<close> never see a
  zero divisor; on a positive divisor they are \<open>mod\<close> and \<open>div\<close>.
\<close>

partial_function (option) strip_factor :: "int \<Rightarrow> int \<Rightarrow> int option" where
  "strip_factor temp d =
     (if temp mod d = 0 then strip_factor (temp div d) d else Some temp)"

partial_function (option) kernel_loop :: "int \<Rightarrow> int \<Rightarrow> int \<Rightarrow> (int \<times> int) option" where
  "kernel_loop kern d temp =
     (if d * d \<le> temp then
        (if temp mod d = 0 then
           Option.bind (strip_factor temp d) (\<lambda>temp'. kernel_loop (kern * d) (d + 1) temp')
         else kernel_loop kern (d + 1) temp)
      else Some (kern, temp))"

declare strip_factor.simps [code] kernel_loop.simps [code]

definition finish_kernel :: "int \<times> int \<Rightarrow> int" where
  "finish_kernel s = (case s of (kern, temp) \<Rightarrow> if temp > 1 then kern * temp else kern)"

definition square_free_kernel :: "int \<Rightarrow> int option" where
  "square_free_kernel m =
     (if m = 0 then Some 0
      else map_option finish_kernel (kernel_loop 1 2 m))"

section \<open>Fixing-opportunity search\<close>

text \<open>
  \<^verbatim>\<open>
  def check_fixing_opportunity(n, kernel_set):
      kernels = sorted(kernel_set)
      max_scales = []
      for k in kernels:
          s = 1
          while k * s * s <= n:
              s += 1
          max_scales.append(s - 1)
      scale_ranges = [range(1, ms + 1) for ms in max_scales]
      for scales in cart_product(*scale_ranges):
          if all(s == 1 for s in scales):
              continue
          A = [k * s * s for k, s in zip(kernels, scales)]
          if len(set(A)) != len(A):
              continue
          A_sorted = sorted(A)
          prod = A_sorted[0] * A_sorted[1] * A_sorted[2] * A_sorted[3]
          if is_square(prod):
              if A_sorted[0] * A_sorted[3] == A_sorted[1] * A_sorted[2]:
                  return True, A
      return False, None
  \<close>
  \<open>scale_loop\<close> is the \<^verbatim>\<open>while\<close> loop on \<open>s\<close>; it does not end when \<open>k \<le> 0 \<le> n\<close>,
  and the whole call then has the value \<open>None\<close>. \<open>max_scales_of\<close> is the first
  \<^verbatim>\<open>for\<close> loop. \<open>cart_product\<close> is \<^verbatim>\<open>itertools.product\<close>: all ways to pick one
  element from each range, the last position changing fastest. \<open>try_scales\<close> is
  the second \<^verbatim>\<open>for\<close> loop over the scale tuples still to be visited; reading
  \<^verbatim>\<open>A_sorted[3]\<close> of a list with fewer than four elements raises \<^verbatim>\<open>IndexError\<close>.
  As for \<open>check_admissible\<close>, the set argument is given by a list of its elements.
\<close>

partial_function (option) scale_loop :: "int \<Rightarrow> int \<Rightarrow> int \<Rightarrow> int option" where
  "scale_loop n k s = (if k * s * s \<le> n then scale_loop n k (s + 1) else Some s)"

declare scale_loop.simps [code]

fun max_scales_of :: "int \<Rightarrow> int list \<Rightarrow> int list option" where
  "max_scales_of n [] = Some []"
| "max_scales_of n (k # ks) =
     (case scale_loop n k 1 of
        None \<Rightarrow> None
      | Some s \<Rightarrow> map_option ((#) (s - 1)) (max_scales_of n ks))"

fun cart_product :: "'a list list \<Rightarrow> 'a list list" where
  "cart_product [] = [[]]"
| "cart_product (r # rs) = concat (map (\<lambda>x. map ((#) x) (cart_product rs)) r)"

fun try_scales :: "int list \<Rightarrow> int list list \<Rightarrow> py_error + (bool \<times> int list option)" where
  "try_scales kernels [] = Inr (False, None)"
| "try_scales kernels (scales # rest) =
     (if list_all (\<lambda>s. s = 1) scales then try_scales kernels rest
      else
        let A = map (\<lambda>(k, s). k * s * s) (zip kernels scales) in
        if card (set A) \<noteq> length A then try_scales kernels rest
        else
          let A_sorted = sort A in
          if length A_sorted < 4 then Inl IndexError
          else if is_square (A_sorted ! 0 * A_sorted ! 1 * A_sorted ! 2 * A_sorted ! 3)
                  \<and> A_sorted ! 0 * A_sorted ! 3 = A_sorted ! 1 * A_sorted ! 2
          then Inr (True, Some A)
          else try_scales kernels rest)"

definition check_fixing_opportunity ::
  "int \<Rightarrow> int list \<Rightarrow> (py_error + (bool \<times> int list option)) option" where
  "check_fixing_opportunity n kernel_set =
     (let kernels = sort kernel_set in
      case max_scales_of n kernels of
        None \<Rightarrow> None
      | Some max_scales \<Rightarrow>
          Some (try_scales kernels (cart_product (map (\<lambda>ms. [1..ms]) max_scales))))"

section \<open>Hypergraph and minimum vertex cover\<close>

text \<open>
  \<^verbatim>\<open>
  def compute_f_sf(n):
      V = sieve_square_free(n)
      V_set = set(V)
      pair_groups = defaultdict(list)
      for i in range(len(V)):
          for j in range(i + 1, len(V)):
              k = core(V[i], V[j])
              pair_groups[k].append((V[i], V[j]))
  \<close>
  \<open>vertex_pairs\<close> lists the pairs \<open>(V[i], V[j])\<close> in the order the two loops visit
  them. The dictionary \<^verbatim>\<open>pair_groups\<close> is iterated later, so the order of its keys
  matters: it is an association list in order of first insertion, and
  \<open>append_to_group\<close> is \<^verbatim>\<open>pair_groups[k].append(p)\<close>. \<open>group_pairs\<close> runs the loop
  body over the pairs and stops at an exception of \<open>core\<close>.
\<close>

definition vertex_pairs :: "int list \<Rightarrow> (int \<times> int) list" where
  "vertex_pairs V =
     concat (map (\<lambda>i. map (\<lambda>j. (V ! i, V ! j)) [i + 1..<length V]) [0..<length V])"

type_synonym pair_groups = "(int \<times> (int \<times> int) list) list"

fun append_to_group :: "int \<Rightarrow> int \<times> int \<Rightarrow> pair_groups \<Rightarrow> pair_groups" where
  "append_to_group k p [] = [(k, [p])]"
| "append_to_group k p ((k', ps) # groups) =
     (if k' = k then (k', ps @ [p]) # groups
      else (k', ps) # append_to_group k p groups)"

fun group_pairs :: "(int \<times> int) list \<Rightarrow> pair_groups \<Rightarrow> py_error + pair_groups" where
  "group_pairs [] groups = Inr groups"
| "group_pairs ((x, y) # ps) groups =
     (case core x y of
        Inl e \<Rightarrow> Inl e
      | Inr k \<Rightarrow> group_pairs ps (append_to_group k (x, y) groups))"

text \<open>
  \<^verbatim>\<open>
      edges = []
      for k, pairs in pair_groups.items():
          if len(pairs) < 2:
              continue
          for i in range(len(pairs)):
              for j in range(i + 1, len(pairs)):
                  p1, p2 = pairs[i], pairs[j]
                  vertices = {p1[0], p1[1], p2[0], p2[1]}
                  if len(vertices) == 4:
                      q = sorted(vertices)
                      if q[0] * q[3] != q[1] * q[2]:
                          edges.append(tuple(q))
  \<close>
  \<open>quad_edge p1 p2\<close> is what the innermost body appends (one tuple or nothing); a
  tuple is the list of its four entries. \<open>group_edges\<close> is the body of the loop
  over the groups and \<open>build_edges\<close> the whole loop.
\<close>

definition quad_edge :: "int \<times> int \<Rightarrow> int \<times> int \<Rightarrow> int list list" where
  "quad_edge p1 p2 =
     (let vertices = {fst p1, snd p1, fst p2, snd p2} in
      if card vertices = 4 then
        (let q = sorted_list_of_set vertices in
         if q ! 0 * q ! 3 \<noteq> q ! 1 * q ! 2 then [q] else [])
      else [])"

definition group_edges :: "(int \<times> int) list \<Rightarrow> int list list" where
  "group_edges pairs =
     (if length pairs < 2 then []
      else concat (map (\<lambda>i. concat (map (\<lambda>j. quad_edge (pairs ! i) (pairs ! j))
                                           [i + 1..<length pairs]))
                       [0..<length pairs]))"

definition build_edges :: "pair_groups \<Rightarrow> int list list" where
  "build_edges groups = concat (map (\<lambda>(k, pairs). group_edges pairs) groups)"

text \<open>
  \<^verbatim>\<open>
      deg = Counter()
      for e in edges:
          deg.update(e)
  \<close>
  A \<^verbatim>\<open>Counter\<close> reads \<open>0\<close> at a key it does not hold.
\<close>

definition count_degrees :: "int list list \<Rightarrow> int \<Rightarrow> nat" where
  "count_degrees edges =
     fold (\<lambda>e deg. fold (\<lambda>v deg. deg(v := deg v + 1)) e deg) edges (\<lambda>v. 0)"

text \<open>
  \<^verbatim>\<open>
      min_cover = [set(V)]

      def backtrack(edge_idx, cover):
          if len(cover) >= len(min_cover[0]):
              return
          uncovered = None
          for i in range(edge_idx, len(edges)):
              if not any(v in cover for v in edges[i]):
                  uncovered = edges[i]
                  edge_idx = i
                  break
          if uncovered is None:
              if len(cover) < len(min_cover[0]):
                  min_cover[0] = cover.copy()
              return
          for v in sorted(uncovered, key=lambda x: deg[x], reverse=True):
              cover.add(v)
              backtrack(edge_idx + 1, cover)
              cover.remove(v)
  \<close>
  The call mutates two objects, the set \<^verbatim>\<open>cover\<close> it is given and the cell
  \<^verbatim>\<open>min_cover[0]\<close>; the model passes both in and returns both. \<open>find\<close> is the scan
  for the first uncovered edge from \<open>edge_idx\<close> on. The stable sort by descending
  degree is a stable sort by the negated degree. Each recursive call is made on
  the set left by the previous iteration, with \<open>v\<close> added, and \<open>v\<close> is removed from
  the set the call leaves.
\<close>

function backtrack ::
  "int list list \<Rightarrow> (int \<Rightarrow> nat) \<Rightarrow> nat \<Rightarrow> int set \<times> int set \<Rightarrow> int set \<times> int set" where
  "backtrack edges deg edge_idx (cover, min_cover) =
     (if card cover \<ge> card min_cover then (cover, min_cover)
      else
        case find (\<lambda>i. \<not> list_ex (\<lambda>v. v \<in> cover) (edges ! i)) [edge_idx..<length edges] of
          None \<Rightarrow>
            (if card cover < card min_cover then (cover, cover) else (cover, min_cover))
        | Some i \<Rightarrow>
            fold (\<lambda>v state.
                    case backtrack edges deg (i + 1) (insert v (fst state), snd state) of
                      (cover', min_cover') \<Rightarrow> (cover' - {v}, min_cover'))
                 (sort_key (\<lambda>x. - int (deg x)) (edges ! i))
                 (cover, min_cover))"
  by pat_completeness auto
termination
proof (relation "measure (\<lambda>(edges, deg, edge_idx, state). length edges - edge_idx)")
  show "wf (measure (\<lambda>(edges, deg, edge_idx, state). length edges - edge_idx))"
    by simp
next
  fix edges :: "int list list" and deg :: "int \<Rightarrow> nat" and edge_idx :: nat
    and cover min_cover :: "int set" and i :: nat and v :: int and state :: "int set \<times> int set"
  assume "find (\<lambda>i. \<not> list_ex (\<lambda>v. v \<in> cover) (edges ! i)) [edge_idx..<length edges] = Some i"
  then have "i \<in> set [edge_idx..<length edges]"
    by (auto simp: find_Some_iff)
  then show "((edges, deg, i + 1, insert v (fst state), snd state),
              edges, deg, edge_idx, cover, min_cover)
             \<in> measure (\<lambda>(edges, deg, edge_idx, state). length edges - edge_idx)"
    by auto
qed

declare backtrack.simps [simp del]

text \<open>
  \<^verbatim>\<open>
      if not edges:
          return len(V), edges, set()
      ...
      backtrack(0, set())
      f_sf = len(V) - len(min_cover[0])
      return f_sf, edges, min_cover[0]
  \<close>
  \<open>solve_cover\<close> is the part of \<^verbatim>\<open>compute_f_sf\<close> after the edges are built.
\<close>

definition solve_cover :: "int list \<Rightarrow> int list list \<Rightarrow> int \<times> int list list \<times> int set" where
  "solve_cover V edges =
     (if edges = [] then (int (length V), edges, {})
      else
        case backtrack edges (count_degrees edges) 0 ({}, set V) of
          (cover, min_cover) \<Rightarrow> (int (length V) - int (card min_cover), edges, min_cover))"

definition compute_f_sf :: "int \<Rightarrow> py_error + (int \<times> int list list \<times> int set)" where
  "compute_f_sf n =
     (case sieve_square_free n of
        Inl e \<Rightarrow> Inl e
      | Inr V \<Rightarrow>
          (case group_pairs (vertex_pairs V) [] of
             Inl e \<Rightarrow> Inl e
           | Inr pair_groups \<Rightarrow> Inr (solve_cover V (build_edges pair_groups))))"

section \<open>Specification predicates\<close>

text \<open>
  A set of vertices covers a list of hyperedges when it meets every one of them.
\<close>

definition covers :: "int set \<Rightarrow> int list list \<Rightarrow> bool" where
  "covers C edges = (\<forall>e\<in>set edges. \<exists>v\<in>set e. v \<in> C)"

text \<open>
  What a call of \<open>backtrack\<close> needs and what it guarantees. Before the call both sets
  are finite, the edges before \<open>edge_idx\<close> are covered by \<^verbatim>\<open>cover\<close>, and the best set
  so far covers all edges. After it \<^verbatim>\<open>cover\<close> is as it was, the best set still
  covers all edges, is no larger than before, and is no larger than any finite
  cover of all edges that extends \<^verbatim>\<open>cover\<close>.
\<close>

definition backtrack_pre :: "int list list \<Rightarrow> nat \<Rightarrow> int set \<times> int set \<Rightarrow> bool" where
  "backtrack_pre edges edge_idx st =
     (finite (fst st) \<and> finite (snd st)
      \<and> (\<forall>j. j < edge_idx \<and> j < length edges \<longrightarrow> (\<exists>v\<in>set (edges ! j). v \<in> fst st))
      \<and> covers (snd st) edges)"

definition backtrack_post ::
  "int list list \<Rightarrow> int set \<times> int set \<Rightarrow> int set \<times> int set \<Rightarrow> bool" where
  "backtrack_post edges st res =
     (fst res = fst st \<and> finite (snd res) \<and> covers (snd res) edges
      \<and> card (snd res) \<le> card (snd st)
      \<and> snd res \<subseteq> snd st \<union> fst st \<union> \<Union>(set ` set edges)
      \<and> (\<forall>C. finite C \<and> fst st \<subseteq> C \<and> covers C edges \<longrightarrow> card (snd res) \<le> card C))"

text \<open>
  The invariant of the grouping loop: every pair filed under a key \<open>k\<close> comes from the
  set \<open>S\<close> of generated pairs and has core \<open>k\<close>.
\<close>

definition good_groups :: "(int \<times> int) set \<Rightarrow> pair_groups \<Rightarrow> bool" where
  "good_groups S G =
     (\<forall>k pairs x y. (k, pairs) \<in> set G \<longrightarrow> (x, y) \<in> set pairs \<longrightarrow>
        (x, y) \<in> S \<and> core x y = Inr k)"

text \<open>
  A bucket of the grouping, the list of pairs filed under one core value \<open>k\<close>: the
  pairs are pairwise different, each is a pair \<open>x < y\<close> of positive square-free
  integers, and each has core \<open>k\<close>. \<open>bucket_invariant R G\<close> is the invariant of the
  grouping loop when the pairs of \<open>R\<close> are still to be filed: the keys of \<open>G\<close> are
  pairwise different and every bucket is good and holds no pair of \<open>R\<close>.
\<close>

definition good_bucket :: "int \<Rightarrow> (int \<times> int) list \<Rightarrow> bool" where
  "good_bucket k pairs =
     (distinct pairs
      \<and> (\<forall>x y. (x, y) \<in> set pairs \<longrightarrow>
             0 < x \<and> x < y \<and> square_free x \<and> square_free y \<and> core x y = Inr k))"

definition bucket_invariant :: "(int \<times> int) set \<Rightarrow> pair_groups \<Rightarrow> bool" where
  "bucket_invariant R G =
     (distinct (map fst G)
      \<and> (\<forall>k pairs. (k, pairs) \<in> set G \<longrightarrow> good_bucket k pairs \<and> set pairs \<inter> R = {}))"

section \<open>Properties of the primitives\<close>

lemma length_combinations:
  "q \<in> set (combinations xs r) \<Longrightarrow> length q = r"
  by (induction xs r arbitrary: q rule: combinations.induct) auto

lemma isqrt_bounds:
  "0 \<le> n \<Longrightarrow> 0 \<le> isqrt n \<and> isqrt n * isqrt n \<le> n \<and> n < (isqrt n + 1) * (isqrt n + 1)"
proof (induction n rule: isqrt.induct)
  case (1 n)
  show ?case
  proof (cases "n \<le> 0")
    case True
    with "1.prems" show ?thesis by (simp add: isqrt.simps)
  next
    case False
    define s where "s = isqrt (n div 4)"
    from False have "0 \<le> n div 4" by simp
    with "1.IH" [OF False] have nonneg: "0 \<le> s"
      and lo: "s * s \<le> n div 4" and hi: "n div 4 < (s + 1) * (s + 1)"
      by (simp_all add: s_def)
    have "4 * (n div 4) \<le> n" by simp
    with lo have lo': "(2 * s) * (2 * s) \<le> n" by simp
    from hi have "n div 4 + 1 \<le> (s + 1) * (s + 1)" by simp
    then have "4 * (n div 4) + 4 \<le> 4 * ((s + 1) * (s + 1))" by simp
    moreover have "n < 4 * (n div 4) + 4" by simp
    ultimately have hi': "n < (2 * s + 2) * (2 * s + 2)" by (simp add: algebra_simps)
    have eq: "isqrt n = (if (2 * s + 1) * (2 * s + 1) \<le> n then 2 * s + 1 else 2 * s)"
      using False by (subst isqrt.simps) (simp add: s_def isqrt_step_def)
    show ?thesis
    proof (cases "(2 * s + 1) * (2 * s + 1) \<le> n")
      case True
      with eq have "isqrt n = 2 * s + 1" by simp
      with True hi' nonneg show ?thesis by (simp add: algebra_simps)
    next
      case False
      with eq have "isqrt n = 2 * s" by simp
      with False lo' nonneg show ?thesis by (simp add: algebra_simps)
    qed
  qed
qed

section \<open>Admissibility of the two documented sets\<close>

text \<open>
  C3 (as amended). The set \<open>{3,5,126,210}\<close> is admissible: its product is a perfect
  square and the cross equality holds, \<open>3 * 210 = 5 * 126\<close>, so \<open>check_admissible\<close>
  returns \<open>True\<close> on it. The set \<open>{3,5,14,210}\<close> is rejected: its product is a
  perfect square and \<open>3 * 210 \<noteq> 5 * 14\<close>.
\<close>

theorem check_admissible_theorem_3_sets:
  "check_admissible [3, 5, 126, 210] = True
   \<and> is_square (3 * 5 * 126 * 210) \<and> (3::int) * 210 = 5 * 126
   \<and> check_admissible [3, 5, 14, 210] = False
   \<and> is_square (3 * 5 * 14 * 210) \<and> (3::int) * 210 \<noteq> 5 * 14"
  by code_simp

text \<open>
  C3 as stated fails: \<open>check_admissible\<close> does not return \<open>False\<close> on
  \<open>{3,5,126,210}\<close>.
\<close>

theorem check_admissible_3_5_126_210_not_false:
  "\<not> (check_admissible [3, 5, 126, 210] = False
      \<and> check_admissible [3, 5, 14, 210] = False)"
  by code_simp

section \<open>Correctness of the sieve\<close>

lemma length_fold_clear:
  "length (fold (\<lambda>j l. l[nat j := False]) js l) = length l"
  by (induction js arbitrary: l) auto

lemma nth_fold_clear:
  "k < length l \<Longrightarrow>
   fold (\<lambda>j l. l[nat j := False]) js l ! k = (l ! k \<and> k \<notin> nat ` set js)"
proof (induction js arbitrary: l)
  case Nil
  then show ?case by simp
next
  case (Cons j js)
  have "fold (\<lambda>j l. l[nat j := False]) (j # js) l ! k =
        fold (\<lambda>j l. l[nat j := False]) js (l[nat j := False]) ! k"
    by simp
  also have "\<dots> = (l[nat j := False] ! k \<and> k \<notin> nat ` set js)"
    using Cons.prems by (intro Cons.IH) simp
  also have "l[nat j := False] ! k = (l ! k \<and> k \<noteq> nat j)"
    using Cons.prems by (cases "k = nat j") simp_all
  finally show ?case by auto
qed

lemma set_range_step:
  "0 < step \<Longrightarrow>
   set (range_step start stop step) = {x. start \<le> x \<and> x < stop \<and> step dvd (x - start)}"
proof (induction start stop step rule: range_step.induct)
  case (1 start stop step)
  show ?case
  proof (cases "start < stop")
    case False
    then show ?thesis by (subst range_step.simps) auto
  next
    case True
    have IH: "set (range_step (start + step) stop step) =
              {x. start + step \<le> x \<and> x < stop \<and> step dvd (x - (start + step))}"
      using "1.IH" "1.prems" True by simp
    have dv: "\<And>x. step dvd (x - (start + step)) \<longleftrightarrow> step dvd (x - start)"
    proof -
      fix x
      have "x - start = (x - (start + step)) + step" by simp
      then show "step dvd (x - (start + step)) \<longleftrightarrow> step dvd (x - start)"
        by (metis dvd_add_triv_right_iff)
    qed
    have "set (range_step start stop step) = insert start (set (range_step (start + step) stop step))"
      using True "1.prems" by (subst range_step.simps) simp
    also have "\<dots> = {x. start \<le> x \<and> x < stop \<and> step dvd (x - start)}"
    proof (rule set_eqI, rule iffI)
      fix x assume "x \<in> insert start (set (range_step (start + step) stop step))"
      then show "x \<in> {x. start \<le> x \<and> x < stop \<and> step dvd (x - start)}"
        using True "1.prems" by (auto simp: IH dv)
    next
      fix x assume a: "x \<in> {x. start \<le> x \<and> x < stop \<and> step dvd (x - start)}"
      show "x \<in> insert start (set (range_step (start + step) stop step))"
      proof (cases "x = start")
        case True then show ?thesis by simp
      next
        case False
        with a have pos: "0 < x - start" and d: "step dvd (x - start)" by auto
        from d pos have "step \<le> x - start" by (rule zdvd_imp_le)
        with a d show ?thesis by (simp add: IH dv)
      qed
    qed
    finally show ?thesis .
  qed
qed

lemma length_mark_multiples: "length (mark_multiples n i l) = length l"
  by (simp add: mark_multiples_def length_fold_clear)

lemma nth_mark_multiples:
  assumes "1 < i" "1 \<le> x" "nat x < length l"
  shows "mark_multiples n i l ! nat x = (l ! nat x \<and> \<not> (x \<le> n \<and> i * i dvd x))"
proof -
  have pos: "0 < i * i" using assms(1) by simp
  have "nat x \<in> nat ` set (range_step (i * i) (n + 1) (i * i)) \<longleftrightarrow> x \<le> n \<and> i * i dvd x"
  proof
    assume "nat x \<in> nat ` set (range_step (i * i) (n + 1) (i * i))"
    then obtain j where j: "j \<in> set (range_step (i * i) (n + 1) (i * i))" and e: "nat x = nat j"
      by auto
    from j pos have "i * i \<le> j" "j < n + 1" "i * i dvd (j - i * i)"
      by (simp_all add: set_range_step)
    moreover from this pos e assms(2) have "x = j" by simp
    ultimately have "x \<le> n" and "i * i dvd (x - i * i) + i * i"
      by (simp_all only: dvd_add_triv_right_iff)
    then show "x \<le> n \<and> i * i dvd x" by simp
  next
    assume a: "x \<le> n \<and> i * i dvd x"
    with assms(2) have "i * i \<le> x" by (intro zdvd_imp_le) simp_all
    moreover from a have "i * i dvd (x - i * i)" by simp
    ultimately have "x \<in> set (range_step (i * i) (n + 1) (i * i))"
      using a pos by (simp add: set_range_step)
    then show "nat x \<in> nat ` set (range_step (i * i) (n + 1) (i * i))" by blast
  qed
  then show ?thesis
    using assms(3) by (simp add: mark_multiples_def nth_fold_clear)
qed

lemma length_fold_mark: "length (fold (mark_multiples n) is l) = length l"
  by (induction "is" arbitrary: l) (simp_all add: length_mark_multiples)

lemma nth_fold_mark:
  assumes "\<forall>i\<in>set is. 1 < i" "1 \<le> x" "x \<le> n" "nat x < length l"
  shows "fold (mark_multiples n) is l ! nat x = (l ! nat x \<and> (\<forall>i\<in>set is. \<not> i * i dvd x))"
  using assms
proof (induction "is" arbitrary: l)
  case Nil
  then show ?case by simp
next
  case (Cons i "is")
  have "fold (mark_multiples n) (i # is) l ! nat x =
        fold (mark_multiples n) is (mark_multiples n i l) ! nat x" by simp
  also have "\<dots> = (mark_multiples n i l ! nat x \<and> (\<forall>i\<in>set is. \<not> i * i dvd x))"
    using Cons.prems by (intro Cons.IH) (simp_all add: length_mark_multiples)
  also have "mark_multiples n i l ! nat x = (l ! nat x \<and> \<not> (x \<le> n \<and> i * i dvd x))"
    using Cons.prems by (intro nth_mark_multiples) simp_all
  finally show ?case using Cons.prems(3) by auto
qed

lemma square_root_in_range:
  assumes "1 < q * q" "q * q dvd x" "1 \<le> x" "x \<le> n"
  shows "\<bar>q\<bar> \<in> set [2..isqrt n]"
proof -
  have n0: "0 \<le> n" using assms by simp
  have q2: "2 \<le> \<bar>q\<bar>"
  proof (rule ccontr)
    assume "\<not> 2 \<le> \<bar>q\<bar>"
    then have "q = 0 \<or> q = 1 \<or> q = -1" by auto
    with assms(1) show False by auto
  qed
  have "q * q \<le> x" using assms(2,3) by (intro zdvd_imp_le) simp_all
  with assms(4) have le: "\<bar>q\<bar> * \<bar>q\<bar> \<le> n" by (simp add: abs_mult_self_eq)
  have "\<bar>q\<bar> < isqrt n + 1"
  proof (rule ccontr)
    assume "\<not> \<bar>q\<bar> < isqrt n + 1"
    then have ge: "isqrt n + 1 \<le> \<bar>q\<bar>" by simp
    moreover have "0 \<le> isqrt n + 1" using isqrt_bounds [OF n0] by simp
    ultimately have "(isqrt n + 1) * (isqrt n + 1) \<le> \<bar>q\<bar> * \<bar>q\<bar>"
      by (intro mult_mono) simp_all
    with le isqrt_bounds [OF n0] show False by simp
  qed
  with q2 show ?thesis by simp
qed

text \<open>
  The outer loop may run past \<open>isqrt n\<close> without changing the result: an \<open>i\<close> above
  it has \<open>i * i > n\<close> and marks nothing. So a bound \<^verbatim>\<open>int(n**0.5)\<close> that the
  double-precision power rounded up gives the same list.
\<close>

lemma sieve_bound_irrelevant:
  assumes n: "0 \<le> n" and r: "isqrt n \<le> r"
  shows "collect_marked n (fold (mark_multiples n) [2..r] (replicate (nat (n + 1)) True)) =
         collect_marked n (fold (mark_multiples n) [2..isqrt n] (replicate (nat (n + 1)) True))"
  unfolding collect_marked_def
proof (rule filter_cong [OF refl])
  fix x assume "x \<in> set [1..n]"
  then have x: "1 \<le> x" "x \<le> n" by simp_all
  let ?init = "replicate (nat (n + 1)) True"
  have len: "nat x < length ?init" using x by simp
  have big: "\<not> i * i dvd x" if "isqrt n < i" for i
  proof
    assume "i * i dvd x"
    then have "i * i \<le> x" using x(1) by (intro zdvd_imp_le) simp_all
    moreover have "0 \<le> isqrt n + 1" using isqrt_bounds [OF n] by simp
    then have "(isqrt n + 1) * (isqrt n + 1) \<le> i * i"
      using that by (intro mult_mono) simp_all
    ultimately show False using isqrt_bounds [OF n] x(2) by simp
  qed
  have "fold (mark_multiples n) [2..r] ?init ! nat x
        = (?init ! nat x \<and> (\<forall>i\<in>set [2..r]. \<not> i * i dvd x))"
    using x len by (intro nth_fold_mark) simp_all
  also have "(\<forall>i\<in>set [2..r]. \<not> i * i dvd x) = (\<forall>i\<in>set [2..isqrt n]. \<not> i * i dvd x)"
  proof
    assume "\<forall>i\<in>set [2..r]. \<not> i * i dvd x"
    with r show "\<forall>i\<in>set [2..isqrt n]. \<not> i * i dvd x" by simp
  next
    assume a: "\<forall>i\<in>set [2..isqrt n]. \<not> i * i dvd x"
    show "\<forall>i\<in>set [2..r]. \<not> i * i dvd x"
    proof
      fix i assume "i \<in> set [2..r]"
      then have "2 \<le> i" by simp
      show "\<not> i * i dvd x"
      proof (cases "i \<le> isqrt n")
        case True
        with a \<open>2 \<le> i\<close> show ?thesis by simp
      next
        case False
        then show ?thesis by (intro big) simp
      qed
    qed
  qed
  also have "(?init ! nat x \<and> (\<forall>i\<in>set [2..isqrt n]. \<not> i * i dvd x))
        = fold (mark_multiples n) [2..isqrt n] ?init ! nat x"
    using x len by (intro nth_fold_mark [symmetric]) simp_all
  finally show "fold (mark_multiples n) [2..r] ?init ! nat x
        = fold (mark_multiples n) [2..isqrt n] ?init ! nat x" .
qed


lemma sieve_square_free_15:
  "sieve_square_free 15 = Inr [1, 2, 3, 5, 6, 7, 10, 11, 13, 14, 15]"
  by code_simp

lemma sieve_square_free_props:
  assumes "1 \<le> n"
  shows "\<exists>V. sieve_square_free n = Inr V \<and> sorted_wrt (<) V \<and> set V \<subseteq> {1..n}
             \<and> 1 \<in> set V \<and> (\<forall>x\<in>set V. square_free x)"
proof -
  define l where "l = fold (mark_multiples n) [2..isqrt n] (replicate (nat (n + 1)) True)"
  define V where "V = collect_marked n l"
  have res: "sieve_square_free n = Inr V"
    using assms by (simp add: sieve_square_free_def V_def l_def)
  have mem: "x \<in> set V \<longleftrightarrow> 1 \<le> x \<and> x \<le> n \<and> (\<forall>i\<in>set [2..isqrt n]. \<not> i * i dvd x)" for x
  proof (cases "1 \<le> x \<and> x \<le> n")
    case False
    then show ?thesis by (auto simp: V_def collect_marked_def)
  next
    case True
    then have "l ! nat x = (replicate (nat (n + 1)) True ! nat x \<and> (\<forall>i\<in>set [2..isqrt n]. \<not> i * i dvd x))"
      unfolding l_def by (intro nth_fold_mark) auto
    moreover have "replicate (nat (n + 1)) True ! nat x" using True by simp
    ultimately show ?thesis using True by (simp add: V_def collect_marked_def)
  qed
  have "sorted_wrt (<) [1..n]"
    by (simp add: strict_sorted_iff)
  then have srt: "sorted_wrt (<) V"
    unfolding V_def collect_marked_def by (rule sorted_wrt_filter)
  have "\<not> i * i dvd 1" if "2 \<le> i" for i :: int
  proof
    assume "i * i dvd 1"
    then have "i * i \<le> 1" by (intro zdvd_imp_le) simp_all
    moreover from that have "2 * 2 \<le> i * i" by (intro mult_mono) simp_all
    ultimately show False by simp
  qed
  then have one: "1 \<in> set V"
    using assms by (simp add: mem)
  have sf: "square_free x" if "x \<in> set V" for x
    unfolding square_free_def
  proof (intro allI impI notI)
    fix q assume q: "1 < q * q" "q * q dvd x"
    from that have x: "1 \<le> x" "x \<le> n" by (simp_all add: mem)
    from q x have a: "\<bar>q\<bar> \<in> set [2..isqrt n]"
      by (rule square_root_in_range)
    have b: "\<bar>q\<bar> * \<bar>q\<bar> dvd x" using q(2) by (simp add: abs_mult_self_eq)
    from that have "\<forall>i\<in>set [2..isqrt n]. \<not> i * i dvd x" by (simp add: mem)
    with a have "\<not> \<bar>q\<bar> * \<bar>q\<bar> dvd x" by blast
    with b show False by blast
  qed
  from res srt one sf mem show ?thesis by auto
qed

text \<open>
  C8. For every \<open>n \<ge> 1\<close>, \<open>sieve_square_free n\<close> returns a strictly increasing
  list of integers of \<open>[1, n]\<close> that contains \<open>1\<close> and whose members are divisible
  by no perfect square greater than \<open>1\<close>.
\<close>

theorem sieve_square_free_correct:
  assumes "1 \<le> n"
  shows "\<exists>V. sieve_square_free n = Inr V \<and> sorted_wrt (<) V \<and> set V \<subseteq> {1..n}
             \<and> 1 \<in> set V \<and> (\<forall>x\<in>set V. square_free x)"
  using assms by (rule sieve_square_free_props)

theorem sieve_square_free_correct_witness:
  "(1::int) \<le> 15 \<and> sieve_square_free 15 = Inr [1, 2, 3, 5, 6, 7, 10, 11, 13, 14, 15]
   \<and> sorted_wrt (<) [1, 2, 3, 5, 6, 7, 10, 11, 13, 14, 15 :: int]
   \<and> list_all square_free [1, 2, 3, 5, 6, 7, 10, 11, 13, 14, 15]"
proof -
  have ev: "sieve_square_free 15 = Inr [1, 2, 3, 5, 6, 7, 10, 11, 13, 14, 15]"
    by (rule sieve_square_free_15)
  from sieve_square_free_correct [of 15] ev show ?thesis by (simp add: list_all_iff)
qed

section \<open>Correctness of the square-free kernel\<close>

lemma square_free_iff: "square_free x \<longleftrightarrow> (\<forall>q. 2 \<le> q \<longrightarrow> \<not> q * q dvd x)"
proof
  assume sf: "square_free x"
  show "\<forall>q. 2 \<le> q \<longrightarrow> \<not> q * q dvd x"
  proof (intro allI impI)
    fix q :: int assume "2 \<le> q"
    then have "2 * 2 \<le> q * q" by (intro mult_mono) simp_all
    then have "1 < q * q" by simp
    with sf show "\<not> q * q dvd x" by (simp add: square_free_def)
  qed
next
  assume a: "\<forall>q. 2 \<le> q \<longrightarrow> \<not> q * q dvd x"
  show "square_free x"
    unfolding square_free_def
  proof (intro allI impI)
    fix q :: int assume q: "1 < q * q"
    have "2 \<le> \<bar>q\<bar>"
    proof (rule ccontr)
      assume "\<not> 2 \<le> \<bar>q\<bar>"
      then have "q = 0 \<or> q = 1 \<or> q = -1" by auto
      with q show False by auto
    qed
    with a have "\<not> \<bar>q\<bar> * \<bar>q\<bar> dvd x" by blast
    then show "\<not> q * q dvd x" by (simp add: abs_mult_self_eq)
  qed
qed

lemma square_free_dvd: "square_free x \<Longrightarrow> y dvd x \<Longrightarrow> square_free y"
  unfolding square_free_def by (meson dvd_trans)

lemma strip_factor_result:
  assumes "0 < temp" "1 < d"
  shows "\<exists>t. strip_factor temp d = Some t \<and> 0 < t \<and> t dvd temp \<and> \<not> d dvd t
             \<and> (d dvd temp \<longrightarrow> d * t dvd temp)
             \<and> (d dvd temp \<longrightarrow> \<not> d * d dvd temp \<longrightarrow> d * t = temp)"
  using assms
proof (induction "nat temp" arbitrary: temp rule: less_induct)
  case less
  show ?case
  proof (cases "d dvd temp")
    case False
    then have "strip_factor temp d = Some temp"
      by (subst strip_factor.simps) (simp add: dvd_eq_mod_eq_0)
    with False less.prems show ?thesis by simp
  next
    case True
    then obtain u where u: "temp = d * u" by (rule dvdE)
    with less.prems have upos: "0 < u" by (simp add: zero_less_mult_iff)
    have udiv: "temp div d = u" using u less.prems by simp
    have "u < temp" using u upos less.prems by simp
    then have "nat u < nat temp" using upos by simp
    from less.hyps [OF this upos less.prems(2)]
    obtain t where t: "strip_factor u d = Some t" "0 < t" "t dvd u" "\<not> d dvd t"
      "d dvd u \<longrightarrow> d * t dvd u" by blast
    have eq: "strip_factor temp d = Some t"
      using True t(1) udiv by (subst strip_factor.simps) (simp add: dvd_eq_mod_eq_0)
    have a: "t dvd temp" using t(3) u by simp
    have b: "d * t dvd temp" using t(3) u by simp
    have c: "d * t = temp" if "\<not> d * d dvd temp"
    proof -
      from that u have "\<not> d dvd u" by auto
      then have "strip_factor u d = Some u"
        by (subst strip_factor.simps) (simp add: dvd_eq_mod_eq_0)
      with t(1) have "t = u" by simp
      with u show ?thesis by simp
    qed
    from eq t(2,4) a b c show ?thesis by simp
  qed
qed

lemma irreducible_coprime:
  fixes p t :: int
  assumes irr: "\<forall>q. 2 \<le> q \<and> q dvd p \<longrightarrow> q = p" and p: "2 \<le> p" and nd: "\<not> p dvd t"
  shows "coprime p t"
proof -
  define g where "g = gcd p t"
  have g0: "0 \<le> g" by (simp add: g_def)
  have gp: "g dvd p" and gt: "g dvd t" by (simp_all add: g_def)
  have "g \<noteq> 0" using p by (auto simp: g_def)
  moreover have "\<not> 2 \<le> g"
  proof
    assume "2 \<le> g"
    with irr gp have "g = p" by blast
    with gt nd show False by simp
  qed
  ultimately have "g = 1" using g0 by linarith
  then show ?thesis by (simp add: g_def coprime_iff_gcd_eq_1)
qed

lemma square_free_mult_irreducible:
  fixes k p :: int
  assumes sf: "square_free k" and irr: "\<forall>q. 2 \<le> q \<and> q dvd p \<longrightarrow> q = p"
    and p: "2 \<le> p" and cop: "coprime k p"
  shows "square_free (k * p)"
  unfolding square_free_iff
proof (intro allI impI notI)
  fix q :: int assume q: "2 \<le> q" and dv: "q * q dvd k * p"
  show False
  proof (cases "p dvd q")
    case True
    from True True have "p * p dvd q * q" by (rule mult_dvd_mono)
    then have "p * p dvd k * p" using dv by (rule dvd_trans)
    then have "p * p dvd p * k" by (simp add: mult.commute)
    with p have "p dvd k" by simp
    with cop have "is_unit p" by (meson coprime_common_divisor dvd_refl)
    with p show False by simp
  next
    case False
    with irr p have "coprime p q" by (rule irreducible_coprime)
    then have "coprime (q * q) p" by (simp add: coprime_commute)
    with dv have "q * q dvd k" by (simp add: coprime_dvd_mult_left_iff)
    with sf q show False by (simp add: square_free_iff)
  qed
qed

lemma no_small_divisor_irreducible:
  fixes t d :: int
  assumes t: "0 < t" and d: "2 \<le> d" and small: "\<forall>q. 2 \<le> q \<and> q < d \<longrightarrow> \<not> q dvd t"
    and bound: "\<not> d * d \<le> t"
  shows "\<forall>q. 2 \<le> q \<and> q dvd t \<longrightarrow> q = t"
proof (intro allI impI)
  fix q assume q: "2 \<le> q \<and> q dvd t"
  then obtain r where r: "t = q * r" by (auto elim: dvdE)
  with t q have rpos: "0 < r" by (simp add: zero_less_mult_iff)
  show "q = t"
  proof (rule ccontr)
    assume "q \<noteq> t"
    with r have "r \<noteq> 1" by auto
    with rpos have r2: "2 \<le> r" by simp
    have "r dvd t" using r by simp
    with small r2 have rd: "d \<le> r" by force
    from small q have qd: "d \<le> q" by force
    from qd rd d have "d * d \<le> q * r" by (intro mult_mono) simp_all
    with r bound show False by simp
  qed
qed

lemma kernel_loop_result:
  assumes "0 < kern" "2 \<le> d" "0 < temp" "square_free kern" "coprime kern temp"
    "\<forall>q. 2 \<le> q \<and> q < d \<longrightarrow> \<not> q dvd temp"
  shows "\<exists>k t. kernel_loop kern d temp = Some (k, t) \<and> 0 < k \<and> 0 < t
           \<and> k * t dvd kern * temp \<and> square_free k \<and> coprime k t
           \<and> (\<forall>q. 2 \<le> q \<and> q dvd t \<longrightarrow> q = t)
           \<and> (square_free temp \<longrightarrow> k * t = kern * temp)"
  using assms
proof (induction "nat (temp + 1 - d)" arbitrary: kern d temp rule: less_induct)
  case less
  note small = less.prems(6)
  show ?case
  proof (cases "d * d \<le> temp")
    case False
    then have "kernel_loop kern d temp = Some (kern, temp)"
      by (subst kernel_loop.simps) simp
    moreover have "\<forall>q. 2 \<le> q \<and> q dvd temp \<longrightarrow> q = temp"
      using less.prems(3,2) small False by (rule no_small_divisor_irreducible)
    ultimately show ?thesis using less.prems by simp
  next
    case True
    have dle: "d \<le> temp"
    proof -
      have "d * 1 \<le> d * d" using less.prems(2) by (intro mult_left_mono) simp_all
      with True show ?thesis by simp
    qed
    show ?thesis
    proof (cases "d dvd temp")
      case False
      have small': "\<forall>q. 2 \<le> q \<and> q < d + 1 \<longrightarrow> \<not> q dvd temp"
      proof (intro allI impI)
        fix q assume "2 \<le> q \<and> q < d + 1"
        then have "q < d \<or> q = d" by auto
        with small False \<open>2 \<le> q \<and> q < d + 1\<close> show "\<not> q dvd temp" by auto
      qed
      have m: "nat (temp + 1 - (d + 1)) < nat (temp + 1 - d)" using dle by simp
      have "2 \<le> d + 1" using less.prems(2) by simp
      from less.hyps [OF m less.prems(1) this less.prems(3,4,5) small']
      obtain k t where kt: "kernel_loop kern (d + 1) temp = Some (k, t)" "0 < k" "0 < t"
        "k * t dvd kern * temp" "square_free k" "coprime k t"
        "\<forall>q. 2 \<le> q \<and> q dvd t \<longrightarrow> q = t" "square_free temp \<longrightarrow> k * t = kern * temp"
        by blast
      have "kernel_loop kern d temp = Some (k, t)"
        using True False kt(1) by (subst kernel_loop.simps) (simp add: dvd_eq_mod_eq_0)
      with kt show ?thesis by simp
    next
      case dv: True
      have "1 < d" using less.prems(2) by simp
      from strip_factor_result [OF less.prems(3) this]
      obtain u where u: "strip_factor temp d = Some u" "0 < u" "u dvd temp" "\<not> d dvd u"
        "d * u dvd temp" "\<not> d * d dvd temp \<longrightarrow> d * u = temp"
        using dv by blast
      have irr: "\<forall>q. 2 \<le> q \<and> q dvd d \<longrightarrow> q = d"
      proof (intro allI impI)
        fix q assume q: "2 \<le> q \<and> q dvd d"
        then have "q \<le> d" using less.prems(2) by (intro zdvd_imp_le) simp_all
        moreover from q dv have "q dvd temp" by (meson dvd_trans)
        ultimately show "q = d" using small q by force
      qed
      have copd: "coprime kern d"
        by (rule coprime_divisors [OF dvd_refl dv less.prems(5)])
      have sf': "square_free (kern * d)"
        using less.prems(4) irr less.prems(2) copd by (rule square_free_mult_irreducible)
      have "coprime kern u"
        by (rule coprime_divisors [OF dvd_refl u(3) less.prems(5)])
      moreover have "coprime d u"
        using irr less.prems(2) u(4) by (rule irreducible_coprime)
      ultimately have cop': "coprime (kern * d) u" by simp
      have small': "\<forall>q. 2 \<le> q \<and> q < d + 1 \<longrightarrow> \<not> q dvd u"
      proof (intro allI impI)
        fix q assume q: "2 \<le> q \<and> q < d + 1"
        then have "q < d \<or> q = d" by auto
        then show "\<not> q dvd u"
        proof
          assume "q < d"
          with small q have "\<not> q dvd temp" by simp
          with u(3) show ?thesis by (meson dvd_trans)
        next
          assume "q = d"
          with u(4) show ?thesis by simp
        qed
      qed
      have "u \<le> temp" using u(3) less.prems(3) by (intro zdvd_imp_le) simp_all
      with dle have m: "nat (u + 1 - (d + 1)) < nat (temp + 1 - d)" by simp
      have kpos: "0 < kern * d" using less.prems(1,2) by simp
      have "2 \<le> d + 1" using less.prems(2) by simp
      from less.hyps [OF m kpos this u(2) sf' cop' small']
      obtain k t where kt: "kernel_loop (kern * d) (d + 1) u = Some (k, t)" "0 < k" "0 < t"
        "k * t dvd kern * d * u" "square_free k" "coprime k t"
        "\<forall>q. 2 \<le> q \<and> q dvd t \<longrightarrow> q = t" "square_free u \<longrightarrow> k * t = kern * d * u"
        by blast
      have eq: "kernel_loop kern d temp = Some (k, t)"
        using True dv kt(1) u(1) by (subst kernel_loop.simps) (simp add: dvd_eq_mod_eq_0)
      have "kern * (d * u) dvd kern * temp" by (rule mult_dvd_mono [OF dvd_refl u(5)])
      with kt(4) have dvd: "k * t dvd kern * temp" by (simp add: mult.assoc dvd_trans)
      have keep: "k * t = kern * temp" if sft: "square_free temp"
      proof -
        from sft u(3) have "square_free u" by (rule square_free_dvd)
        with kt(8) have "k * t = kern * d * u" by simp
        moreover have "\<not> d * d dvd temp" using sft less.prems(2) by (simp add: square_free_iff)
        with u(6) have "d * u = temp" by simp
        ultimately show ?thesis by (simp add: mult.assoc)
      qed
      from eq kt(2,3,5,6,7) dvd keep show ?thesis by simp
    qed
  qed
qed

lemma square_free_one: "square_free 1"
  unfolding square_free_iff
proof (intro allI impI notI)
  fix q :: int assume "2 \<le> q" "q * q dvd 1"
  then have "q * q \<le> 1" by (intro zdvd_imp_le) simp_all
  moreover from \<open>2 \<le> q\<close> have "2 * 2 \<le> q * q" by (intro mult_mono) simp_all
  ultimately show False by simp
qed

lemma square_free_kernel_result:
  assumes "1 \<le> m"
  shows "\<exists>k. square_free_kernel m = Some k \<and> 1 \<le> k \<and> k dvd m \<and> square_free k
             \<and> (square_free m \<longrightarrow> k = m)"
proof -
  have "\<exists>k t. kernel_loop 1 2 m = Some (k, t) \<and> 0 < k \<and> 0 < t
           \<and> k * t dvd 1 * m \<and> square_free k \<and> coprime k t
           \<and> (\<forall>q. 2 \<le> q \<and> q dvd t \<longrightarrow> q = t)
           \<and> (square_free m \<longrightarrow> k * t = 1 * m)"
    using assms by (intro kernel_loop_result) (auto simp: square_free_one)
  then obtain k t where kt: "kernel_loop 1 2 m = Some (k, t)" "0 < k" "0 < t"
    "k * t dvd m" "square_free k" "coprime k t"
    "\<forall>q. 2 \<le> q \<and> q dvd t \<longrightarrow> q = t" "square_free m \<longrightarrow> k * t = m"
    by auto
  show ?thesis
  proof (cases "1 < t")
    case True
    then have res: "square_free_kernel m = Some (k * t)"
      using assms kt(1) by (simp add: square_free_kernel_def finish_kernel_def)
    have "square_free (k * t)"
      using kt(5,7) True kt(6) by (intro square_free_mult_irreducible) simp_all
    moreover have "1 \<le> k * t" using kt(2,3) by (simp add: zero_less_mult_iff int_one_le_iff_zero_less)
    ultimately show ?thesis using res kt(4,8) by simp
  next
    case False
    with kt(3) have t1: "t = 1" by simp
    then have res: "square_free_kernel m = Some k"
      using assms kt(1) by (simp add: square_free_kernel_def finish_kernel_def)
    with kt t1 show ?thesis by simp
  qed
qed

text \<open>
  C9. For every \<open>m \<ge> 1\<close>, \<open>square_free_kernel m\<close> returns a value \<open>k\<close> that divides
  \<open>m\<close> and is square-free, and \<open>square_free_kernel k\<close> returns \<open>k\<close> again.
\<close>

theorem square_free_kernel_correct:
  assumes "1 \<le> m"
  shows "\<exists>k. square_free_kernel m = Some k \<and> k dvd m \<and> square_free k
             \<and> square_free_kernel k = Some k"
proof -
  from square_free_kernel_result [OF assms]
  obtain k where k: "square_free_kernel m = Some k" "1 \<le> k" "k dvd m" "square_free k"
    by blast
  from square_free_kernel_result [OF k(2)] k(4)
  have "square_free_kernel k = Some k" by auto
  with k show ?thesis by simp
qed

theorem square_free_kernel_correct_witness:
  "(1::int) \<le> 396900 \<and> square_free_kernel 396900 = Some 210 \<and> 210 dvd (396900::int)
   \<and> square_free 210 \<and> square_free_kernel 210 = Some 210"
proof -
  have ev: "square_free_kernel 396900 = Some 210"
    by code_simp
  from square_free_kernel_correct [of 396900] ev show ?thesis by simp
qed

section \<open>The core of a number with itself\<close>

text \<open>
  C5 (as amended). For every positive integer \<open>a\<close>, square-free or not,
  \<open>core a a\<close> returns \<open>1\<close>: the greatest common divisor of \<open>a\<close> with itself is \<open>a\<close>,
  and \<open>a * a\<close> divided by \<open>a * a\<close> is \<open>1\<close>.
\<close>

theorem core_self_is_one:
  "0 < a \<Longrightarrow> core a a = Inr 1"
  by (simp add: core_def)

theorem core_self_is_one_witness:
  "(0::int) < 2 \<and> core 2 2 = Inr 1"
  using core_self_is_one [of 2] by simp

text \<open>
  C5 as stated fails at \<open>a = 2\<close>, which is square-free: \<open>core 2 2\<close> is \<open>1\<close>, not
  \<open>2\<close>.
\<close>

theorem core_self_not_identity:
  "square_free 2 \<and> core 2 2 \<noteq> Inr 2"
proof
  show "square_free 2"
    unfolding square_free_iff
  proof (intro allI impI notI)
    fix q :: int assume q: "2 \<le> q" "q * q dvd 2"
    then have "q * q \<le> 2" by (intro zdvd_imp_le) simp_all
    moreover from q(1) have "2 * 2 \<le> q * q" by (intro mult_mono) simp_all
    ultimately show False by simp
  qed
  show "core 2 2 \<noteq> Inr 2" by (simp add: core_def)
qed

section \<open>The fixing-opportunity search\<close>

lemma scale_loop_above:
  "n < k * s * s \<Longrightarrow> scale_loop n k s = Some s"
  by (subst scale_loop.simps) simp

lemma scale_loop_returns:
  assumes "0 < k" "1 \<le> s"
  shows "\<exists>s'. scale_loop n k s = Some s'"
  using assms
proof (induction "nat (n + 1 - s)" arbitrary: s rule: less_induct)
  case less
  show ?case
  proof (cases "k * s * s \<le> n")
    case False
    then show ?thesis by (simp add: scale_loop_above)
  next
    case True
    have "s * 1 \<le> s * s" using less.prems(2) by (intro mult_left_mono) simp_all
    moreover have "1 * (s * s) \<le> k * (s * s)"
      using less.prems(1) by (intro mult_right_mono) simp_all
    ultimately have "s \<le> n" using True by (simp add: mult.assoc)
    then have "nat (n + 1 - (s + 1)) < nat (n + 1 - s)" by simp
    moreover have "1 \<le> s + 1" using less.prems(2) by simp
    ultimately obtain s' where "scale_loop n k (s + 1) = Some s'"
      using less.hyps less.prems(1) by blast
    with True show ?thesis by (subst scale_loop.simps) simp
  qed
qed

lemma max_scales_of_returns:
  assumes "\<forall>k\<in>set ks. 0 < k"
  shows "\<exists>ms. max_scales_of n ks = Some ms \<and> ((\<exists>k\<in>set ks. n < k) \<longrightarrow> 0 \<in> set ms)"
  using assms
proof (induction ks)
  case Nil
  then show ?case by simp
next
  case (Cons k ks)
  then obtain ms where ms: "max_scales_of n ks = Some ms"
    "(\<exists>k\<in>set ks. n < k) \<longrightarrow> 0 \<in> set ms" by auto
  from Cons.prems have kpos: "0 < k" by simp
  then obtain s where s: "scale_loop n k 1 = Some s"
    using scale_loop_returns [of k 1 n] by auto
  have res: "max_scales_of n (k # ks) = Some ((s - 1) # ms)"
    using s ms(1) by simp
  have "s = 1" if "n < k"
    using that s scale_loop_above [of n k 1] by simp
  with ms(2) res show ?case by auto
qed

lemma cart_product_empty_range:
  "[] \<in> set rs \<Longrightarrow> cart_product rs = []"
proof (induction rs)
  case Nil
  then show ?case by simp
next
  case (Cons r rs)
  show ?case
  proof (cases "r = []")
    case True
    then show ?thesis by simp
  next
    case False
    with Cons have "cart_product rs = []" by simp
    then show ?thesis by simp
  qed
qed

text \<open>
  C4. \<open>check_fixing_opportunity 210 {3,5,14,210}\<close> reports a fix, the list
  \<open>[3,5,126,210]\<close>, and \<open>check_admissible\<close> accepts that list.
\<close>

theorem fixing_210_round_trip:
  "check_fixing_opportunity 210 [3, 5, 14, 210] = Some (Inr (True, Some [3, 5, 126, 210]))
   \<and> check_admissible [3, 5, 126, 210] = True"
  by code_simp

text \<open>
  C10. When every kernel is positive and one of them exceeds the bound \<open>n\<close>, that
  kernel has no scale at all, there is no scale tuple to try, and
  \<open>check_fixing_opportunity\<close> returns \<open>(False, None)\<close>. This holds for every \<open>n\<close>,
  positive or not, and for a kernel collection of any size.
\<close>

theorem fixing_kernel_above_bound:
  assumes "\<forall>k\<in>set K. 0 < k" and "\<exists>k\<in>set K. n < k"
  shows "check_fixing_opportunity n K = Some (Inr (False, None))"
proof -
  from assms have pos: "\<forall>k\<in>set (sort K). 0 < k" and big: "\<exists>k\<in>set (sort K). n < k"
    by simp_all
  from max_scales_of_returns [OF pos, of n] big
  obtain ms where ms: "max_scales_of n (sort K) = Some ms" "0 \<in> set ms" by blast
  from ms(2) have "[1..0] \<in> (\<lambda>ms. [1..ms]) ` set ms" by (rule imageI)
  then have "[] \<in> set (map (\<lambda>ms. [1..ms]) ms)" by simp
  then have "cart_product (map (\<lambda>ms. [1..ms]) ms) = []" by (rule cart_product_empty_range)
  with ms(1) show ?thesis by (simp add: check_fixing_opportunity_def)
qed

theorem fixing_kernel_above_bound_witness:
  "(0::int) < 3 \<and> (0::int) < 5 \<and> (0::int) < 14 \<and> (0::int) < 210 \<and> (100::int) < 210
   \<and> check_fixing_opportunity 100 [3, 5, 14, 210] = Some (Inr (False, None))"
  using fixing_kernel_above_bound [of "[3, 5, 14, 210]" 100] by simp

section \<open>Correctness of the branch-and-bound search\<close>

lemma fold_set_invariant:
  assumes "J {} s" and "\<And>x S s. x \<in> set xs \<Longrightarrow> J S s \<Longrightarrow> J (insert x S) (f x s)"
  shows "J (set xs) (fold f xs s)"
proof -
  have "J S s \<Longrightarrow> (\<And>x S s. x \<in> set xs \<Longrightarrow> J S s \<Longrightarrow> J (insert x S) (f x s))
        \<Longrightarrow> J (S \<union> set xs) (fold f xs s)" for S s
  proof (induction xs arbitrary: S s)
    case Nil
    then show ?case by simp
  next
    case (Cons x xs)
    have "J (insert x S) (f x s)" using Cons.prems by simp
    then have "J (insert x S \<union> set xs) (fold f xs (f x s))"
      using Cons.prems(2) by (intro Cons.IH) simp_all
    then show ?case by simp
  qed
  from this [OF assms(1)] assms(2) show ?thesis by simp
qed

lemma find_upt_Some:
  assumes "find P [a..<b] = Some i"
  shows "a \<le> i" "i < b" "P i" "\<And>j. a \<le> j \<Longrightarrow> j < i \<Longrightarrow> \<not> P j"
proof -
  from assms obtain k where k: "k < length [a..<b]" "P ([a..<b] ! k)" "i = [a..<b] ! k"
    "\<forall>j<k. \<not> P ([a..<b] ! j)"
    by (auto simp: find_Some_iff)
  from k(1) have kb: "a + k < b" by simp
  with k(3) have i: "i = a + k" by simp
  show "a \<le> i" "i < b" using i kb by simp_all
  show "P i" using k(2,3) by simp
  fix j assume j: "a \<le> j" "j < i"
  then have "j - a < k" using i by simp
  with k(4) have "\<not> P ([a..<b] ! (j - a))" by blast
  moreover have "[a..<b] ! (j - a) = j" using j i kb by simp
  ultimately show "\<not> P j" by simp
qed

lemma find_upt_None:
  assumes "find P [a..<b] = None" "a \<le> j" "j < b"
  shows "\<not> P j"
  using assms by (auto simp: find_None_iff)

lemma covers_mono: "covers C edges \<Longrightarrow> C \<subseteq> D \<Longrightarrow> covers D edges"
  unfolding covers_def by blast

lemma backtrack_correct:
  "backtrack_pre edges edge_idx st \<Longrightarrow>
   backtrack_post edges st (backtrack edges deg edge_idx st)"
proof (induction edges deg edge_idx st rule: backtrack.induct)
  case (1 edges deg edge_idx cover min_cover)
  from "1.prems" have fin: "finite cover" "finite min_cover"
    and before: "\<And>j. j < edge_idx \<Longrightarrow> j < length edges \<Longrightarrow> \<exists>v\<in>set (edges ! j). v \<in> cover"
    and best: "covers min_cover edges"
    by (simp_all add: backtrack_pre_def)
  let ?P = "\<lambda>i. \<not> list_ex (\<lambda>v. v \<in> cover) (edges ! i)"
  show ?case
  proof (cases "card min_cover \<le> card cover")
    case True
    then have res: "backtrack edges deg edge_idx (cover, min_cover) = (cover, min_cover)"
      by (subst backtrack.simps) simp
    have "card min_cover \<le> card C" if "finite C" "cover \<subseteq> C" for C
      using True card_mono [OF that] by simp
    with fin best show ?thesis
      unfolding res backtrack_post_def by auto
  next
    case False
    show ?thesis
    proof (cases "find ?P [edge_idx..<length edges]")
      case None
      have res: "backtrack edges deg edge_idx (cover, min_cover) = (cover, cover)"
        using False None by (subst backtrack.simps) simp
      have cov: "covers cover edges"
        unfolding covers_def
      proof
        fix e assume "e \<in> set edges"
        then obtain j where j: "j < length edges" "e = edges ! j"
          by (auto simp: in_set_conv_nth)
        show "\<exists>v\<in>set e. v \<in> cover"
        proof (cases "j < edge_idx")
          case True
          with before j show ?thesis by simp
        next
          case False
          then have "edge_idx \<le> j" by simp
          from None this j(1) have "\<not> ?P j" by (rule find_upt_None)
          with j(2) show ?thesis by (simp add: list_ex_iff)
        qed
      qed
      have "card cover \<le> card C" if "finite C" "cover \<subseteq> C" for C
        using card_mono [OF that] .
      with fin cov False show ?thesis
        unfolding res backtrack_post_def by auto
    next
      case (Some i)
      define e where "e = edges ! i"
      define vs where "vs = sort_key (\<lambda>x. - int (deg x)) e"
      define f where "f = (\<lambda>v (state :: int set \<times> int set).
          case backtrack edges deg (i + 1) (insert v (fst state), snd state) of
            (cover', min_cover') \<Rightarrow> (cover' - {v}, min_cover'))"
      define U where "U = min_cover \<union> cover \<union> \<Union>(set ` set edges)"
      define J where "J = (\<lambda>S (s :: int set \<times> int set).
          fst s = cover \<and> finite (snd s) \<and> covers (snd s) edges
          \<and> card (snd s) \<le> card min_cover \<and> snd s \<subseteq> U
          \<and> (\<forall>C. finite C \<and> cover \<subseteq> C \<and> covers C edges \<and> (\<exists>v\<in>S. v \<in> C)
                 \<longrightarrow> card (snd s) \<le> card C))"
      have res: "backtrack edges deg edge_idx (cover, min_cover) = fold f vs (cover, min_cover)"
        using False Some by (subst backtrack.simps) (simp add: f_def vs_def e_def)
      from Some have i: "edge_idx \<le> i" "i < length edges" and unc: "?P i"
        and first: "\<And>j. edge_idx \<le> j \<Longrightarrow> j < i \<Longrightarrow> \<not> ?P j"
        by (rule find_upt_Some)+
      have e_in: "e \<in> set edges" using i(2) by (simp add: e_def)
      have fresh: "v \<notin> cover" if "v \<in> set e" for v
        using unc that by (auto simp: e_def list_ex_iff)
      have set_vs: "set vs = set e" by (simp add: vs_def)
      have J0: "J {} (cover, min_cover)"
        using fin best by (auto simp: J_def U_def)
      have step: "J (insert x S) (f x s)" if x: "x \<in> set vs" and Js: "J S s" for x S s
      proof -
        obtain c m where s: "s = (c, m)" by (cases s)
        from Js s have c: "c = cover" and m: "finite m" "covers m edges"
          "card m \<le> card min_cover" "m \<subseteq> U"
          and mmin: "\<And>C. finite C \<Longrightarrow> cover \<subseteq> C \<Longrightarrow> covers C edges \<Longrightarrow> \<exists>v\<in>S. v \<in> C
                       \<Longrightarrow> card m \<le> card C"
          by (simp_all add: J_def)
        have xe: "x \<in> set e" using x set_vs by simp
        have pre: "backtrack_pre edges (i + 1) (insert x (fst s), snd s)"
          unfolding backtrack_pre_def
        proof (intro conjI allI impI)
          show "finite (fst (insert x (fst s), snd s))" using fin c s by simp
          show "finite (snd (insert x (fst s), snd s))" using m s by simp
          show "covers (snd (insert x (fst s), snd s)) edges" using m s by simp
          fix j assume j: "j < i + 1 \<and> j < length edges"
          consider "j < edge_idx" | "edge_idx \<le> j" "j < i" | "j = i" using j by linarith
          then show "\<exists>v\<in>set (edges ! j). v \<in> fst (insert x (fst s), snd s)"
          proof cases
            case 1
            with before j s c show ?thesis by auto
          next
            case 2
            then have "\<not> ?P j" by (rule first)
            then show ?thesis using s c by (auto simp: list_ex_iff)
          next
            case 3
            with xe show ?thesis by (auto simp: e_def)
          qed
        qed
        have "backtrack_post edges (insert x (fst s), snd s)
                (backtrack edges deg (i + 1) (insert x (fst s), snd s))"
          using False Some x pre unfolding vs_def e_def by (rule "1.IH")
        moreover obtain c' m' where r: "backtrack edges deg (i + 1) (insert x (fst s), snd s) = (c', m')"
          by (cases "backtrack edges deg (i + 1) (insert x (fst s), snd s)")
        ultimately have post: "c' = insert x cover" "finite m'" "covers m' edges"
          "card m' \<le> card m" "m' \<subseteq> m \<union> insert x cover \<union> \<Union>(set ` set edges)"
          and pmin: "\<And>C. finite C \<Longrightarrow> insert x cover \<subseteq> C \<Longrightarrow> covers C edges \<Longrightarrow> card m' \<le> card C"
          using s c by (simp_all add: backtrack_post_def)
        have fx: "f x s = (cover, m')"
          using r post(1) fresh [OF xe] by (simp add: f_def)
        have "x \<in> U" using xe e_in by (auto simp: U_def)
        with post(5) m(4) have sub: "m' \<subseteq> U" by (auto simp: U_def)
        have "card m' \<le> card C"
          if C: "finite C" "cover \<subseteq> C" "covers C edges" "\<exists>v\<in>insert x S. v \<in> C" for C
        proof (cases "x \<in> C")
          case True
          with C show ?thesis by (intro pmin) simp_all
        next
          case False
          with C(4) have "\<exists>v\<in>S. v \<in> C" by auto
          with C have "card m \<le> card C" by (intro mmin)
          with post(4) show ?thesis by simp
        qed
        with post(2,3,4) m(3) sub show ?thesis
          unfolding fx J_def by simp
      qed
      from J0 step have "J (set vs) (fold f vs (cover, min_cover))"
        by (rule fold_set_invariant)
      then have fin_res: "fst (fold f vs (cover, min_cover)) = cover"
          "finite (snd (fold f vs (cover, min_cover)))"
          "covers (snd (fold f vs (cover, min_cover))) edges"
          "card (snd (fold f vs (cover, min_cover))) \<le> card min_cover"
          "snd (fold f vs (cover, min_cover)) \<subseteq> U"
        and rmin: "\<And>C. finite C \<Longrightarrow> cover \<subseteq> C \<Longrightarrow> covers C edges \<Longrightarrow> \<exists>v\<in>set vs. v \<in> C
                     \<Longrightarrow> card (snd (fold f vs (cover, min_cover))) \<le> card C"
        by (simp_all add: J_def)
      have "card (snd (fold f vs (cover, min_cover))) \<le> card C"
        if C: "finite C" "cover \<subseteq> C" "covers C edges" for C
      proof -
        from C(3) e_in have "\<exists>v\<in>set e. v \<in> C" by (simp add: covers_def)
        with C show ?thesis by (intro rmin) (simp_all add: set_vs)
      qed
      with fin_res show ?thesis
        unfolding res backtrack_post_def U_def by simp
    qed
  qed
qed


section \<open>The constructed hyperedges\<close>

lemma is_square_iff: "is_square m \<longleftrightarrow> (\<exists>r. r * r = m)"
proof
  assume "is_square m"
  then show "\<exists>r. r * r = m"
    by (auto simp: is_square_def Let_def split: if_splits)
next
  assume "\<exists>r. r * r = m"
  then obtain r where r: "r * r = m" ..
  then have m0: "0 \<le> m" by (metis zero_le_square)
  define s where "s = isqrt m"
  from isqrt_bounds [OF m0] have s: "0 \<le> s" "s * s \<le> m" "m < (s + 1) * (s + 1)"
    by (simp_all add: s_def)
  have rr: "\<bar>r\<bar> * \<bar>r\<bar> = m" using r by (simp add: abs_mult_self_eq)
  have "s \<le> \<bar>r\<bar>"
  proof (rule ccontr)
    assume "\<not> s \<le> \<bar>r\<bar>"
    then have "\<bar>r\<bar> < s" by simp
    then have "\<bar>r\<bar> * \<bar>r\<bar> < s * s" by (intro mult_strict_mono) simp_all
    with rr s(2) show False by simp
  qed
  moreover have "\<bar>r\<bar> < s + 1"
  proof (rule ccontr)
    assume "\<not> \<bar>r\<bar> < s + 1"
    then have "s + 1 \<le> \<bar>r\<bar>" by simp
    then have "(s + 1) * (s + 1) \<le> \<bar>r\<bar> * \<bar>r\<bar>" using s(1) by (intro mult_mono) simp_all
    with rr s(3) show False by simp
  qed
  ultimately have "\<bar>r\<bar> = s" by simp
  with rr have "s * s = m" by simp
  with m0 show "is_square m" by (simp add: is_square_def s_def)
qed

lemma core_square:
  assumes "core x y = Inr k"
  shows "\<exists>g. x * y = g * g * k"
proof -
  define g where "g = gcd x y"
  from assms have k: "k = (x * y) div (g * g)"
    by (simp add: core_def g_def Let_def split: if_splits)
  have "g dvd x" "g dvd y" by (simp_all add: g_def)
  then have "g * g dvd x * y" by (rule mult_dvd_mono)
  then have "g * g * ((x * y) div (g * g)) = x * y" by (rule dvd_mult_div_cancel)
  with k have "x * y = g * g * k" by simp
  then show ?thesis ..
qed

lemma core_returns: "x \<noteq> 0 \<Longrightarrow> \<exists>k. core x y = Inr k"
  by (simp add: core_def Let_def)

lemma vertex_pairs_members:
  "(x, y) \<in> set (vertex_pairs V) \<Longrightarrow> x \<in> set V \<and> y \<in> set V"
  by (auto simp: vertex_pairs_def)

lemma good_groups_Cons:
  "good_groups S ((k, pairs) # G) \<longleftrightarrow>
   (\<forall>x y. (x, y) \<in> set pairs \<longrightarrow> (x, y) \<in> S \<and> core x y = Inr k) \<and> good_groups S G"
  unfolding good_groups_def by auto

lemma good_groups_append:
  "good_groups S G \<Longrightarrow> (x, y) \<in> S \<Longrightarrow> core x y = Inr k \<Longrightarrow>
   good_groups S (append_to_group k (x, y) G)"
proof (induction G)
  case Nil
  then show ?case by (simp add: good_groups_def)
next
  case (Cons g G)
  obtain k' ps where g: "g = (k', ps)" by (cases g)
  show ?case
  proof (cases "k' = k")
    case True
    with Cons.prems g show ?thesis by (auto simp: good_groups_Cons)
  next
    case False
    with Cons g show ?thesis by (simp add: good_groups_Cons)
  qed
qed

lemma group_pairs_good:
  assumes "good_groups S G" "set ps \<subseteq> S" "\<forall>(x, y)\<in>set ps. x \<noteq> 0"
  shows "\<exists>G'. group_pairs ps G = Inr G' \<and> good_groups S G'"
  using assms
proof (induction ps arbitrary: G)
  case Nil
  then show ?case by simp
next
  case (Cons p ps)
  obtain x y where p: "p = (x, y)" by (cases p)
  with Cons.prems have "x \<noteq> 0" by simp
  then obtain k where k: "core x y = Inr k" using core_returns by blast
  have "good_groups S (append_to_group k (x, y) G)"
    using Cons.prems p k by (intro good_groups_append) simp_all
  then have "\<exists>G'. group_pairs ps (append_to_group k (x, y) G) = Inr G' \<and> good_groups S G'"
    using Cons.prems by (intro Cons.IH) simp_all
  then show ?case using p k by simp
qed

lemma quad_edge_props:
  assumes "e \<in> set (quad_edge p1 p2)"
  shows "set e = {fst p1, snd p1, fst p2, snd p2}" "distinct [fst p1, snd p1, fst p2, snd p2]"
    "sorted e" "distinct e" "length e = 4" "e ! 0 * e ! 3 \<noteq> e ! 1 * e ! 2"
proof -
  define A where "A = {fst p1, snd p1, fst p2, snd p2}"
  define l where "l = [fst p1, snd p1, fst p2, snd p2]"
  have fin: "finite A" by (simp add: A_def)
  have sl: "set l = A" by (simp add: l_def A_def)
  have ll: "length l = 4" by (simp add: l_def)
  from assms have "e \<in> set (if card A = 4
      then (if sorted_list_of_set A ! 0 * sorted_list_of_set A ! 3
                \<noteq> sorted_list_of_set A ! 1 * sorted_list_of_set A ! 2
            then [sorted_list_of_set A] else [])
      else [])"
    unfolding quad_edge_def A_def Let_def .
  then have c: "card A = 4" and e: "e = sorted_list_of_set A"
    and ne: "e ! 0 * e ! 3 \<noteq> e ! 1 * e ! 2"
    by (simp_all split: if_splits)
  from e fin have "set e = A" by simp
  then show "set e = {fst p1, snd p1, fst p2, snd p2}" unfolding A_def .
  from c sl ll have "card (set l) = length l" by simp
  then have "distinct l" by (rule card_distinct)
  then show "distinct [fst p1, snd p1, fst p2, snd p2]" unfolding l_def .
  show "sorted e" "distinct e" using e by simp_all
  show "length e = 4" using e c by simp
  show "e ! 0 * e ! 3 \<noteq> e ! 1 * e ! 2" by (rule ne)
qed

lemma group_edges_members:
  assumes "e \<in> set (group_edges pairs)"
  shows "\<exists>p1\<in>set pairs. \<exists>p2\<in>set pairs. e \<in> set (quad_edge p1 p2)"
proof -
  from assms obtain i j where ij: "e \<in> set (quad_edge (pairs ! i) (pairs ! j))"
    "Suc i \<le> j" "j < length pairs"
    by (auto simp: group_edges_def split: if_splits)
  then have "pairs ! i \<in> set pairs" "pairs ! j \<in> set pairs" by simp_all
  with ij(1) show ?thesis by blast
qed

lemma build_edges_members:
  assumes "e \<in> set (build_edges G)"
  shows "\<exists>(k, pairs)\<in>set G. e \<in> set (group_edges pairs)"
  using assms by (auto simp: build_edges_def)

lemma sorted_four:
  fixes e :: "int list"
  assumes "sorted e" "distinct e" "length e = 4"
  shows "\<exists>a b c d. e = [a, b, c, d] \<and> a < b \<and> b < c \<and> c < d"
proof -
  from assms(3) obtain a b c d where e: "e = [a, b, c, d]"
    by (auto simp: length_Suc_conv numeral_eq_Suc)
  from assms(1,2) have "sorted_wrt (<) e" by (simp add: strict_sorted_iff)
  with e show ?thesis by simp
qed

lemma edge_of_good_pairs:
  assumes e: "e \<in> set (quad_edge p1 p2)"
    and k1: "core (fst p1) (snd p1) = Inr k" and k2: "core (fst p2) (snd p2) = Inr k"
  shows "\<exists>a b c d. e = [a, b, c, d] \<and> a < b \<and> b < c \<and> c < d
           \<and> {a, b, c, d} = {fst p1, snd p1, fst p2, snd p2}
           \<and> is_square (a * b * c * d) \<and> a * d \<noteq> b * c"
proof -
  note q = quad_edge_props [OF e]
  from sorted_four [OF q(3,4,5)] obtain a b c d
    where abcd: "e = [a, b, c, d]" "a < b" "b < c" "c < d" by blast
  have "prod_list (map id e) = prod id (set e)"
    using q(4) by (rule prod.distinct_set_conv_list [symmetric])
  also have "\<dots> = prod id (set [fst p1, snd p1, fst p2, snd p2])"
    using q(1) by simp
  also have "\<dots> = prod_list (map id [fst p1, snd p1, fst p2, snd p2])"
    using q(2) by (rule prod.distinct_set_conv_list)
  finally have prod: "a * b * c * d = fst p1 * snd p1 * (fst p2 * snd p2)"
    using abcd(1) by (simp add: mult.assoc)
  from core_square [OF k1] obtain g1 where g1: "fst p1 * snd p1 = g1 * g1 * k" ..
  from core_square [OF k2] obtain g2 where g2: "fst p2 * snd p2 = g2 * g2 * k" ..
  have "(g1 * g2 * k) * (g1 * g2 * k) = a * b * c * d"
    unfolding prod g1 g2 by (simp add: algebra_simps)
  then have sq: "is_square (a * b * c * d)" unfolding is_square_iff by blast
  have set: "{a, b, c, d} = {fst p1, snd p1, fst p2, snd p2}"
    using q(1) abcd(1) by simp
  from q(6) abcd(1) have ne: "a * d \<noteq> b * c" by simp
  show ?thesis
    by (rule exI [of _ a], rule exI [of _ b], rule exI [of _ c], rule exI [of _ d])
       (intro conjI abcd sq set ne)
qed

lemma build_edges_spec:
  assumes "good_groups S G" "e \<in> set (build_edges G)"
  shows "\<exists>a b c d. e = [a, b, c, d] \<and> a < b \<and> b < c \<and> c < d
           \<and> {a, b, c, d} \<subseteq> fst ` S \<union> snd ` S
           \<and> is_square (a * b * c * d) \<and> a * d \<noteq> b * c"
proof -
  from build_edges_members [OF assms(2)] obtain k pairs
    where g: "(k, pairs) \<in> set G" "e \<in> set (group_edges pairs)" by auto
  from group_edges_members [OF g(2)] obtain p1 p2
    where p: "p1 \<in> set pairs" "p2 \<in> set pairs" "e \<in> set (quad_edge p1 p2)" by blast
  from assms(1) g(1) p(1) have 1: "p1 \<in> S \<and> core (fst p1) (snd p1) = Inr k"
    unfolding good_groups_def by (cases p1) auto
  from assms(1) g(1) p(2) have 2: "p2 \<in> S \<and> core (fst p2) (snd p2) = Inr k"
    unfolding good_groups_def by (cases p2) auto
  from 1 2 have in_S: "p1 \<in> S" "p2 \<in> S"
    and k: "core (fst p1) (snd p1) = Inr k" "core (fst p2) (snd p2) = Inr k"
    by simp_all
  from edge_of_good_pairs [OF p(3) k] obtain a b c d
    where r: "e = [a, b, c, d]" "a < b" "b < c" "c < d"
      "{a, b, c, d} = {fst p1, snd p1, fst p2, snd p2}"
      "is_square (a * b * c * d)" "a * d \<noteq> b * c" by blast
  from in_S have "{fst p1, snd p1, fst p2, snd p2} \<subseteq> fst ` S \<union> snd ` S" by auto
  then have sub: "{a, b, c, d} \<subseteq> fst ` S \<union> snd ` S" unfolding r(5) .
  show ?thesis
    by (rule exI [of _ a], rule exI [of _ b], rule exI [of _ c], rule exI [of _ d])
       (intro conjI r(1,2,3,4,6,7) sub)
qed


section \<open>The result of \<open>compute_f_sf\<close>\<close>

lemma compute_f_sf_structure:
  assumes "1 \<le> n"
  shows "\<exists>V edges. sieve_square_free n = Inr V \<and> sorted_wrt (<) V \<and> set V \<subseteq> {1..n}
           \<and> (\<forall>x\<in>set V. square_free x)
           \<and> compute_f_sf n = Inr (solve_cover V edges)
           \<and> (\<forall>e\<in>set edges. \<exists>a b c d. e = [a, b, c, d] \<and> a < b \<and> b < c \<and> c < d
                  \<and> {a, b, c, d} \<subseteq> set V \<and> is_square (a * b * c * d) \<and> a * d \<noteq> b * c)"
proof -
  from sieve_square_free_props [OF assms] obtain V
    where V: "sieve_square_free n = Inr V" "sorted_wrt (<) V" "set V \<subseteq> {1..n}"
      "\<forall>x\<in>set V. square_free x" by blast
  define S where "S = set (vertex_pairs V)"
  have ends: "fst ` S \<union> snd ` S \<subseteq> set V"
    unfolding S_def using vertex_pairs_members by fastforce
  have "\<forall>(x, y)\<in>set (vertex_pairs V). x \<noteq> 0"
  proof (intro ballI, clarify)
    fix y assume "(0, y) \<in> set (vertex_pairs V)"
    then have "0 \<in> set V" by (simp add: vertex_pairs_members)
    with V(3) show False by auto
  qed
  moreover have "good_groups S []" by (simp add: good_groups_def)
  moreover have "set (vertex_pairs V) \<subseteq> S" by (simp add: S_def)
  ultimately obtain G where G: "group_pairs (vertex_pairs V) [] = Inr G" "good_groups S G"
    using group_pairs_good by blast
  have res: "compute_f_sf n = Inr (solve_cover V (build_edges G))"
    using V(1) G(1) by (simp add: compute_f_sf_def)
  have "\<exists>a b c d. e = [a, b, c, d] \<and> a < b \<and> b < c \<and> c < d
           \<and> {a, b, c, d} \<subseteq> set V \<and> is_square (a * b * c * d) \<and> a * d \<noteq> b * c"
    if "e \<in> set (build_edges G)" for e
  proof -
    from build_edges_spec [OF G(2) that] obtain a b c d
      where r: "e = [a, b, c, d]" "a < b" "b < c" "c < d"
        "{a, b, c, d} \<subseteq> fst ` S \<union> snd ` S" "is_square (a * b * c * d)" "a * d \<noteq> b * c"
      by blast
    from r(5) ends have sub: "{a, b, c, d} \<subseteq> set V" by (rule subset_trans)
    show ?thesis
      by (rule exI [of _ a], rule exI [of _ b], rule exI [of _ c], rule exI [of _ d])
         (intro conjI r(1,2,3,4,6,7) sub)
  qed
  with V res show ?thesis by blast
qed

lemma solve_cover_props:
  assumes "distinct V" and "\<forall>e\<in>set edges. e \<noteq> [] \<and> set e \<subseteq> set V"
  shows "\<exists>f cover. solve_cover V edges = (f, edges, cover) \<and> cover \<subseteq> set V
           \<and> covers cover edges
           \<and> (\<forall>C. C \<subseteq> set V \<and> covers C edges \<longrightarrow> card cover \<le> card C)
           \<and> f = int (length V) - int (card cover) \<and> 0 \<le> f \<and> f \<le> int (length V)"
proof (cases "edges = []")
  case True
  then have "solve_cover V edges = (int (length V), edges, {})"
    by (simp add: solve_cover_def)
  moreover have "covers {} edges" using True by (simp add: covers_def)
  ultimately show ?thesis by simp
next
  case False
  obtain cover min_cover
    where bt: "backtrack edges (count_degrees edges) 0 ({}, set V) = (cover, min_cover)"
    by (cases "backtrack edges (count_degrees edges) 0 ({}, set V)")
  have all: "covers (set V) edges"
    unfolding covers_def
  proof
    fix e assume "e \<in> set edges"
    with assms(2) have "e \<noteq> []" "set e \<subseteq> set V" by simp_all
    then obtain v where "v \<in> set e" by (cases e) auto
    with \<open>set e \<subseteq> set V\<close> show "\<exists>v\<in>set e. v \<in> set V" by blast
  qed
  then have "backtrack_pre edges 0 ({}, set V)"
    by (simp add: backtrack_pre_def)
  then have "backtrack_post edges ({}, set V) (backtrack edges (count_degrees edges) 0 ({}, set V))"
    by (rule backtrack_correct)
  then have post: "finite min_cover" "covers min_cover edges"
    "card min_cover \<le> card (set V)"
    "min_cover \<subseteq> set V \<union> \<Union>(set ` set edges)"
    and least: "\<And>C. finite C \<Longrightarrow> covers C edges \<Longrightarrow> card min_cover \<le> card C"
    unfolding bt by (simp_all add: backtrack_post_def)
  from assms(2) have "\<Union>(set ` set edges) \<subseteq> set V" by auto
  with post(4) have sub: "min_cover \<subseteq> set V" by auto
  have least': "\<forall>C. C \<subseteq> set V \<and> covers C edges \<longrightarrow> card min_cover \<le> card C"
  proof (intro allI impI)
    fix C assume C: "C \<subseteq> set V \<and> covers C edges"
    then have "finite C" by (meson finite_subset finite_set)
    with C show "card min_cover \<le> card C" by (intro least) simp_all
  qed
  have "card (set V) = length V" using assms(1) by (rule distinct_card)
  with post(3) have le: "card min_cover \<le> length V" by simp
  have res: "solve_cover V edges = (int (length V) - int (card min_cover), edges, min_cover)"
    using False bt by (simp add: solve_cover_def)
  from le have "0 \<le> int (length V) - int (card min_cover)" by simp
  with res sub post(2) least' show ?thesis by simp
qed

lemma compute_f_sf_cases:
  assumes "1 \<le> n"
  obtains V f edges cover where
    "sieve_square_free n = Inr V" "set V \<subseteq> {1..n}" "\<forall>x\<in>set V. square_free x"
    "compute_f_sf n = Inr (f, edges, cover)"
    "\<forall>e\<in>set edges. \<exists>a b c d. e = [a, b, c, d] \<and> a < b \<and> b < c \<and> c < d
        \<and> {a, b, c, d} \<subseteq> set V \<and> is_square (a * b * c * d) \<and> a * d \<noteq> b * c"
    "cover \<subseteq> set V" "covers cover edges"
    "\<forall>C. C \<subseteq> set V \<and> covers C edges \<longrightarrow> card cover \<le> card C"
    "f = int (length V) - int (card cover)" "0 \<le> f" "f \<le> int (length V)"
proof -
  from compute_f_sf_structure [OF assms] obtain V edges
    where s: "sieve_square_free n = Inr V" "sorted_wrt (<) V" "set V \<subseteq> {1..n}"
      "\<forall>x\<in>set V. square_free x" "compute_f_sf n = Inr (solve_cover V edges)"
      "\<forall>e\<in>set edges. \<exists>a b c d. e = [a, b, c, d] \<and> a < b \<and> b < c \<and> c < d
          \<and> {a, b, c, d} \<subseteq> set V \<and> is_square (a * b * c * d) \<and> a * d \<noteq> b * c"
    by blast
  from s(2) have dist: "distinct V" by (simp add: strict_sorted_iff)
  have "\<forall>e\<in>set edges. e \<noteq> [] \<and> set e \<subseteq> set V"
  proof
    fix e assume "e \<in> set edges"
    with s(6) obtain a b c d where "e = [a, b, c, d]" "{a, b, c, d} \<subseteq> set V" by blast
    then show "e \<noteq> [] \<and> set e \<subseteq> set V" by simp
  qed
  from solve_cover_props [OF dist this] obtain f cover
    where c: "solve_cover V edges = (f, edges, cover)" "cover \<subseteq> set V" "covers cover edges"
      "\<forall>C. C \<subseteq> set V \<and> covers C edges \<longrightarrow> card cover \<le> card C"
      "f = int (length V) - int (card cover)" "0 \<le> f" "f \<le> int (length V)"
    by blast
  from s(5) c(1) have "compute_f_sf n = Inr (f, edges, cover)" by simp
  with s(1,3,4) show thesis using s(6) c(2-7) by (rule that)
qed

lemma compute_f_sf_15:
  "compute_f_sf 15 = Inr (10, [[1, 6, 10, 15], [1, 6, 10, 15], [1, 6, 10, 15]], {1})"
  by code_simp


section \<open>Edges generated from one core bucket\<close>

text \<open>
  For square-free \<open>b\<close> and \<open>c\<close> the core with a fixed \<open>a\<close> determines the partner:
  \<open>core a b = core a c\<close> forces \<open>b = c\<close>. Hence two pairs of one bucket that share an
  endpoint are the same pair, a quadruple is generated from one bucket by at most
  one choice of two positions, and the edges of one bucket are pairwise different.
\<close>

lemma square_free_nonzero: "square_free x \<Longrightarrow> x \<noteq> 0"
proof
  assume "square_free x" "x = 0"
  then have "\<not> (2::int) * 2 dvd 0" unfolding square_free_iff by blast
  then show False by simp
qed

lemma square_free_cofactor_coprime:
  fixes g b' :: int
  assumes "square_free (g * b')"
  shows "coprime g b'"
proof -
  define d where "d = gcd g b'"
  have d0: "0 \<le> d" by (simp add: d_def)
  have "d dvd g" "d dvd b'" by (simp_all add: d_def)
  then have dd: "d * d dvd g * b'" by (rule mult_dvd_mono)
  have "g * b' \<noteq> 0" using assms by (rule square_free_nonzero)
  then have "d \<noteq> 0" by (auto simp: d_def)
  moreover have "\<not> 2 \<le> d" using assms dd unfolding square_free_iff by blast
  ultimately have "d = 1" using d0 by linarith
  then show ?thesis by (simp add: d_def coprime_iff_gcd_eq_1)
qed

lemma core_value:
  assumes "a \<noteq> 0"
  shows "core a b = Inr ((a div gcd a b) * (b div gcd a b))"
proof -
  have "gcd a b \<noteq> 0" using assms by simp
  moreover have "(a div gcd a b) * (b div gcd a b) = (a * b) div (gcd a b * gcd a b)"
    by (rule div_mult_div_if_dvd) simp_all
  ultimately show ?thesis by (simp add: core_def Let_def)
qed

lemma core_commute: "core a b = core b a"
  by (simp add: core_def Let_def gcd.commute mult.commute)

lemma core_cancel:
  assumes a: "0 < a" and b: "0 < b" and c: "0 < c"
    and sb: "square_free b" and sc: "square_free c"
    and eq: "core a b = core a c"
  shows "b = c"
proof -
  define g where "g = gcd a b"
  define h where "h = gcd a c"
  define a1 where "a1 = a div g"
  define b1 where "b1 = b div g"
  define a2 where "a2 = a div h"
  define c1 where "c1 = c div h"
  have gpos: "0 < g" and hpos: "0 < h" using a by (simp_all add: g_def h_def)
  have ga: "a = g * a1" and gb: "b = g * b1" by (simp_all add: g_def a1_def b1_def)
  have ha: "a = h * a2" and hc: "c = h * c1" by (simp_all add: h_def a2_def c1_def)
  have b1pos: "0 < b1" using b gb gpos by (simp add: zero_less_mult_iff)
  have c1pos: "0 < c1" using c hc hpos by (simp add: zero_less_mult_iff)
  from a have "a \<noteq> 0" by simp
  from core_value [OF this, of b] core_value [OF this, of c] eq
  have k: "a1 * b1 = a2 * c1" by (simp add: a1_def b1_def a2_def c1_def g_def h_def)
  have "a * (b1 * h) = (g * a1) * (b1 * h)" using ga by simp
  also have "\<dots> = (g * h) * (a1 * b1)" by (simp add: algebra_simps)
  also have "\<dots> = (g * h) * (a2 * c1)" by (simp only: k)
  also have "\<dots> = (h * a2) * (c1 * g)" by (simp add: algebra_simps)
  also have "\<dots> = a * (c1 * g)" using ha by simp
  finally have cross: "b1 * h = c1 * g" using \<open>a \<noteq> 0\<close> by simp
  have "square_free (g * b1)" using sb gb by simp
  then have "coprime g b1" by (rule square_free_cofactor_coprime)
  then have cop_b: "coprime b1 g" by (simp add: coprime_commute)
  have "square_free (h * c1)" using sc hc by simp
  then have "coprime h c1" by (rule square_free_cofactor_coprime)
  then have cop_c: "coprime c1 h" by (simp add: coprime_commute)
  have "b1 dvd c1 * g" by (metis cross dvd_triv_left)
  with cop_b have bc: "b1 dvd c1" by (simp add: coprime_dvd_mult_left_iff)
  have "c1 dvd b1 * h" by (metis cross dvd_triv_left)
  with cop_c have cb: "c1 dvd b1" by (simp add: coprime_dvd_mult_left_iff)
  from b1pos c1pos bc cb have e1: "b1 = c1" by (intro zdvd_antisym_nonneg) simp_all
  with cross c1pos have "h = g" by simp
  with e1 gb hc show ?thesis by simp
qed


lemma distinct_concat_map:
  assumes "distinct xs" and "\<And>x. x \<in> set xs \<Longrightarrow> distinct (f x)"
    and "\<And>x y. x \<in> set xs \<Longrightarrow> y \<in> set xs \<Longrightarrow> x \<noteq> y \<Longrightarrow> set (f x) \<inter> set (f y) = {}"
  shows "distinct (concat (map f xs))"
  using assms
proof (induction xs)
  case Nil
  then show ?case by simp
next
  case (Cons x xs)
  have rest: "distinct (concat (map f xs))"
    using Cons.prems by (intro Cons.IH) simp_all
  have "set (f x) \<inter> set (f y) = {}" if "y \<in> set xs" for y
    using Cons.prems(1) that by (intro Cons.prems(3)) auto
  then have "set (f x) \<inter> set (concat (map f xs)) = {}" by auto
  moreover have "distinct (f x)" using Cons.prems(2) by simp
  ultimately show ?case using rest by simp
qed

lemma same_bucket_share:
  assumes gb: "good_bucket k pairs" and P: "P \<in> set pairs" and Q: "Q \<in> set pairs"
    and share: "fst P = fst Q \<or> fst P = snd Q \<or> snd P = fst Q \<or> snd P = snd Q"
  shows "P = Q"
proof -
  obtain x y where Pxy: "P = (x, y)" by (cases P)
  obtain u v where Quv: "Q = (u, v)" by (cases Q)
  from gb P Pxy have p: "0 < x" "x < y" "square_free x" "square_free y" "core x y = Inr k"
    unfolding good_bucket_def by blast+
  from gb Q Quv have q: "0 < u" "u < v" "square_free u" "square_free v" "core u v = Inr k"
    unfolding good_bucket_def by blast+
  have ypos: "0 < y" and vpos: "0 < v" using p q by simp_all
  from share Pxy Quv consider "x = u" | "x = v" | "y = u" | "y = v" by auto
  then show ?thesis
  proof cases
    case 1
    with p(5) q(5) have "core x y = core x v" by simp
    with p(1) ypos vpos p(4) q(4) have "y = v" by (rule core_cancel)
    with 1 Pxy Quv show ?thesis by simp
  next
    case 2
    have "core x y = core v u" using p(5) q(5) by (simp add: core_commute)
    with 2 have "core x y = core x u" by simp
    with p(1) ypos q(1) p(4) q(3) have "y = u" by (rule core_cancel)
    with 2 p(2) q(2) show ?thesis by simp
  next
    case 3
    have "core y x = core u v" using p(5) q(5) by (simp add: core_commute)
    with 3 have "core y x = core y v" by simp
    with ypos p(1) vpos p(3) q(4) have "x = v" by (rule core_cancel)
    with 3 p(2) q(2) show ?thesis by simp
  next
    case 4
    have "core y x = core v u" using p(5) q(5) by (simp add: core_commute)
    with 4 have "core y x = core y u" by simp
    with ypos p(1) q(1) p(3) q(3) have "x = u" by (rule core_cancel)
    with 4 Pxy Quv show ?thesis by simp
  qed
qed

lemma bucket_edge_indices:
  assumes gb: "good_bucket k pairs"
    and ij: "i < j" "j < length pairs" and ij': "i' < j'" "j' < length pairs"
    and e: "e \<in> set (quad_edge (pairs ! i) (pairs ! j))"
    and e': "e \<in> set (quad_edge (pairs ! i') (pairs ! j'))"
  shows "i = i' \<and> j = j'"
proof -
  have dist: "distinct pairs" using gb by (simp add: good_bucket_def)
  have len: "i < length pairs" "i' < length pairs" using ij ij' by simp_all
  have mem: "pairs ! i \<in> set pairs" "pairs ! j \<in> set pairs"
    "pairs ! i' \<in> set pairs" "pairs ! j' \<in> set pairs"
    using len ij(2) ij'(2) by simp_all
  have s: "set e = {fst (pairs ! i), snd (pairs ! i), fst (pairs ! j), snd (pairs ! j)}"
    using e by (rule quad_edge_props(1))
  have s': "set e = {fst (pairs ! i'), snd (pairs ! i'), fst (pairs ! j'), snd (pairs ! j')}"
    using e' by (rule quad_edge_props(1))
  have "fst (pairs ! i) \<in> set e" unfolding s by simp
  then have "fst (pairs ! i) = fst (pairs ! i') \<or> fst (pairs ! i) = snd (pairs ! i')
      \<or> fst (pairs ! i) = fst (pairs ! j') \<or> fst (pairs ! i) = snd (pairs ! j')"
    unfolding s' by simp
  then have "pairs ! i = pairs ! i' \<or> pairs ! i = pairs ! j'"
    using same_bucket_share [OF gb mem(1) mem(3)] same_bucket_share [OF gb mem(1) mem(4)]
    by blast
  then have a: "i = i' \<or> i = j'"
    using nth_eq_iff_index_eq [OF dist len(1) len(2)] nth_eq_iff_index_eq [OF dist len(1) ij'(2)]
    by blast
  have "fst (pairs ! j) \<in> set e" unfolding s by simp
  then have "fst (pairs ! j) = fst (pairs ! i') \<or> fst (pairs ! j) = snd (pairs ! i')
      \<or> fst (pairs ! j) = fst (pairs ! j') \<or> fst (pairs ! j) = snd (pairs ! j')"
    unfolding s' by simp
  then have "pairs ! j = pairs ! i' \<or> pairs ! j = pairs ! j'"
    using same_bucket_share [OF gb mem(2) mem(3)] same_bucket_share [OF gb mem(2) mem(4)]
    by blast
  then have b: "j = i' \<or> j = j'"
    using nth_eq_iff_index_eq [OF dist ij(2) len(2)] nth_eq_iff_index_eq [OF dist ij(2) ij'(2)]
    by blast
  from a b ij(1) ij'(1) show ?thesis by linarith
qed

lemma distinct_quad_edge: "distinct (quad_edge p1 p2)"
  by (simp add: quad_edge_def Let_def)

lemma good_bucket_edges_distinct:
  assumes gb: "good_bucket k pairs"
  shows "distinct (group_edges pairs)"
proof (cases "length pairs < 2")
  case True
  then show ?thesis by (simp add: group_edges_def)
next
  case False
  let ?row = "\<lambda>i. concat (map (\<lambda>j. quad_edge (pairs ! i) (pairs ! j)) [i + 1..<length pairs])"
  have row_mem: "\<exists>j. i < j \<and> j < length pairs \<and> e \<in> set (quad_edge (pairs ! i) (pairs ! j))"
    if "e \<in> set (?row i)" for e i
  proof -
    from that obtain j where "e \<in> set (quad_edge (pairs ! i) (pairs ! j))"
      "Suc i \<le> j" "j < length pairs" by auto
    then have "i < j \<and> j < length pairs \<and> e \<in> set (quad_edge (pairs ! i) (pairs ! j))"
      by simp
    then show ?thesis ..
  qed
  have "distinct (concat (map ?row [0..<length pairs]))"
  proof (rule distinct_concat_map)
    show "distinct [0..<length pairs]" by simp
  next
    fix i assume "i \<in> set [0..<length pairs]"
    show "distinct (?row i)"
    proof (rule distinct_concat_map)
      show "distinct [i + 1..<length pairs]" by simp
    next
      fix j show "distinct (quad_edge (pairs ! i) (pairs ! j))" by (rule distinct_quad_edge)
    next
      fix j j' assume j: "j \<in> set [i + 1..<length pairs]" "j' \<in> set [i + 1..<length pairs]"
        and ne: "j \<noteq> j'"
      show "set (quad_edge (pairs ! i) (pairs ! j)) \<inter> set (quad_edge (pairs ! i) (pairs ! j')) = {}"
      proof (rule ccontr)
        assume "set (quad_edge (pairs ! i) (pairs ! j)) \<inter> set (quad_edge (pairs ! i) (pairs ! j')) \<noteq> {}"
        then obtain e where "e \<in> set (quad_edge (pairs ! i) (pairs ! j))"
          "e \<in> set (quad_edge (pairs ! i) (pairs ! j'))" by blast
        moreover have "i < j" "j < length pairs" "i < j'" "j' < length pairs" using j by simp_all
        ultimately have "i = i \<and> j = j'" by (intro bucket_edge_indices [OF gb])
        with ne show False by simp
      qed
    qed
  next
    fix i i' assume "i \<in> set [0..<length pairs]" "i' \<in> set [0..<length pairs]" and ne: "i \<noteq> i'"
    show "set (?row i) \<inter> set (?row i') = {}"
    proof (rule ccontr)
      assume "set (?row i) \<inter> set (?row i') \<noteq> {}"
      then obtain e where e: "e \<in> set (?row i)" "e \<in> set (?row i')" by blast
      from row_mem [OF e(1)] obtain j where j: "i < j" "j < length pairs"
        "e \<in> set (quad_edge (pairs ! i) (pairs ! j))" by blast
      from row_mem [OF e(2)] obtain j' where j': "i' < j'" "j' < length pairs"
        "e \<in> set (quad_edge (pairs ! i') (pairs ! j'))" by blast
      from gb j(1,2) j'(1,2) j(3) j'(3) have "i = i' \<and> j = j'" by (rule bucket_edge_indices)
      with ne show False by simp
    qed
  qed
  with False show ?thesis by (simp add: group_edges_def)
qed


lemma keys_append_to_group:
  "fst ` set (append_to_group k p G) = insert k (fst ` set G)"
proof (induction G)
  case Nil
  show ?case by simp
next
  case (Cons g G)
  obtain k' ps where g: "g = (k', ps)" by (cases g)
  show ?case
  proof (cases "k' = k")
    case True
    with g show ?thesis by auto
  next
    case False
    with g Cons.IH show ?thesis by auto
  qed
qed

lemma bucket_invariant_append:
  assumes inv: "bucket_invariant (insert (x, y) R) G" and fresh: "(x, y) \<notin> R"
    and p: "0 < x" "x < y" "square_free x" "square_free y" "core x y = Inr k"
  shows "bucket_invariant R (append_to_group k (x, y) G)"
  using inv
proof (induction G)
  case Nil
  have "good_bucket k [(x, y)]" using p by (simp add: good_bucket_def)
  with fresh show ?case by (simp add: bucket_invariant_def)
next
  case (Cons g G)
  obtain k' ps where g: "g = (k', ps)" by (cases g)
  from Cons.prems g have keys: "k' \<notin> fst ` set G" "distinct (map fst G)"
    and head: "good_bucket k' ps" "set ps \<inter> insert (x, y) R = {}"
    and tail: "\<And>k pairs. (k, pairs) \<in> set G \<Longrightarrow> good_bucket k pairs \<and> set pairs \<inter> insert (x, y) R = {}"
    by (auto simp: bucket_invariant_def)
  have tail_inv: "bucket_invariant (insert (x, y) R) G"
    using keys(2) tail by (simp add: bucket_invariant_def)
  show ?case
  proof (cases "k' = k")
    case True
    have new: "(x, y) \<notin> set ps" using head(2) by auto
    have "good_bucket k (ps @ [(x, y)])"
      using head(1) new p True unfolding good_bucket_def by auto
    moreover have "set (ps @ [(x, y)]) \<inter> R = {}" using head(2) fresh by auto
    moreover have "good_bucket k2 pairs \<and> set pairs \<inter> R = {}" if "(k2, pairs) \<in> set G" for k2 pairs
      using tail [OF that] by auto
    ultimately show ?thesis
      using True g keys by (auto simp: bucket_invariant_def)
  next
    case False
    from Cons.IH [OF tail_inv] have IH: "distinct (map fst (append_to_group k (x, y) G))"
      "\<And>k2 pairs. (k2, pairs) \<in> set (append_to_group k (x, y) G)
          \<Longrightarrow> good_bucket k2 pairs \<and> set pairs \<inter> R = {}"
      by (auto simp: bucket_invariant_def)
    have "k' \<notin> fst ` set (append_to_group k (x, y) G)"
      using False keys(1) by (simp add: keys_append_to_group)
    moreover have "good_bucket k' ps \<and> set ps \<inter> R = {}" using head by auto
    ultimately show ?thesis
      using False g IH unfolding bucket_invariant_def by auto
  qed
qed

lemma group_pairs_buckets:
  assumes "distinct ps"
    and "\<And>x y. (x, y) \<in> set ps \<Longrightarrow> 0 < x \<and> x < y \<and> square_free x \<and> square_free y"
    and "bucket_invariant (set ps) G"
  shows "\<exists>G'. group_pairs ps G = Inr G' \<and> bucket_invariant {} G'"
  using assms
proof (induction ps arbitrary: G)
  case Nil
  then show ?case by simp
next
  case (Cons p ps)
  obtain x y where p: "p = (x, y)" by (cases p)
  from Cons.prems(2) [of x y] p have xy: "0 < x" "x < y" "square_free x" "square_free y"
    by simp_all
  from xy(1) have "x \<noteq> 0" by simp
  then obtain k where k: "core x y = Inr k" using core_returns by blast
  have "(x, y) \<notin> set ps" using Cons.prems(1) p by simp
  moreover have "bucket_invariant (insert (x, y) (set ps)) G" using Cons.prems(3) p by simp
  ultimately have "bucket_invariant (set ps) (append_to_group k (x, y) G)"
    using xy k by (intro bucket_invariant_append)
  moreover have "distinct ps" using Cons.prems(1) by simp
  moreover have "0 < u \<and> u < v \<and> square_free u \<and> square_free v"
    if "(u, v) \<in> set ps" for u v
    using Cons.prems(2) [of u v] that by simp
  ultimately have "\<exists>G'. group_pairs ps (append_to_group k (x, y) G) = Inr G' \<and> bucket_invariant {} G'"
    by (intro Cons.IH)
  then show ?case using p k by simp
qed

lemma vertex_pairs_ordered:
  assumes "sorted_wrt (<) V" "(x, y) \<in> set (vertex_pairs V)"
  shows "x < y"
proof -
  from assms(2) obtain i j where "x = V ! i" "y = V ! j" "Suc i \<le> j" "j < length V"
    by (auto simp: vertex_pairs_def)
  moreover from this have "V ! i < V ! j" by (intro sorted_wrt_nth_less [OF assms(1)]) simp_all
  ultimately show ?thesis by simp
qed

lemma distinct_vertex_pairs:
  assumes "distinct V"
  shows "distinct (vertex_pairs V)"
  unfolding vertex_pairs_def
proof (rule distinct_concat_map)
  show "distinct [0..<length V]" by simp
next
  fix i assume "i \<in> set [0..<length V]"
  have "inj_on (\<lambda>j. (V ! i, V ! j)) (set [i + 1..<length V])"
    by (rule inj_onI) (use assms in \<open>simp add: nth_eq_iff_index_eq\<close>)
  then show "distinct (map (\<lambda>j. (V ! i, V ! j)) [i + 1..<length V])"
    by (simp add: distinct_map)
next
  fix i i' assume i: "i \<in> set [0..<length V]" "i' \<in> set [0..<length V]" and ne: "i \<noteq> i'"
  then have "V ! i \<noteq> V ! i'" using assms by (simp add: nth_eq_iff_index_eq)
  then show "set (map (\<lambda>j. (V ! i, V ! j)) [i + 1..<length V])
           \<inter> set (map (\<lambda>j. (V ! i', V ! j)) [i' + 1..<length V]) = {}"
    by auto
qed

lemma solve_cover_edges: "\<exists>f cover. solve_cover V edges = (f, edges, cover)"
  by (cases "backtrack edges (count_degrees edges) 0 ({}, set V)")
     (simp add: solve_cover_def)

lemma build_edges_entries:
  assumes "e \<in> set (build_edges G)"
  shows "length e = 4 \<and> distinct e"
proof -
  from build_edges_members [OF assms] obtain k pairs
    where "e \<in> set (group_edges pairs)" by auto
  from group_edges_members [OF this] obtain p1 p2 where "e \<in> set (quad_edge p1 p2)" by blast
  then show ?thesis by (simp add: quad_edge_props)
qed

lemma compute_f_sf_buckets:
  assumes "1 \<le> n"
  obtains V G f cover where
    "sieve_square_free n = Inr V" "group_pairs (vertex_pairs V) [] = Inr G"
    "compute_f_sf n = Inr (f, build_edges G, cover)"
    "distinct (map fst G)" "\<forall>(k, pairs)\<in>set G. distinct (group_edges pairs)"
    "\<forall>e\<in>set (build_edges G). length e = 4 \<and> distinct e"
proof -
  from sieve_square_free_props [OF assms] obtain V
    where V: "sieve_square_free n = Inr V" "sorted_wrt (<) V" "set V \<subseteq> {1..n}"
      "\<forall>x\<in>set V. square_free x" by blast
  from V(2) have dV: "distinct V" by (simp add: strict_sorted_iff)
  have props: "0 < x \<and> x < y \<and> square_free x \<and> square_free y"
    if "(x, y) \<in> set (vertex_pairs V)" for x y
  proof -
    from that have m: "x \<in> set V" "y \<in> set V" by (simp_all add: vertex_pairs_members)
    with V(3) have "0 < x" by auto
    moreover from V(2) that have "x < y" by (rule vertex_pairs_ordered)
    moreover from V(4) m have "square_free x" "square_free y" by simp_all
    ultimately show ?thesis by simp
  qed
  have "bucket_invariant (set (vertex_pairs V)) []" by (simp add: bucket_invariant_def)
  with distinct_vertex_pairs [OF dV] props
  obtain G where G: "group_pairs (vertex_pairs V) [] = Inr G" "bucket_invariant {} G"
    using group_pairs_buckets by blast
  obtain f cover where sc: "solve_cover V (build_edges G) = (f, build_edges G, cover)"
    using solve_cover_edges by blast
  have res: "compute_f_sf n = Inr (f, build_edges G, cover)"
    using V(1) G(1) sc by (simp add: compute_f_sf_def)
  have keys: "distinct (map fst G)" using G(2) by (simp add: bucket_invariant_def)
  have buckets: "\<forall>(k, pairs)\<in>set G. distinct (group_edges pairs)"
  proof (intro ballI, clarify)
    fix k pairs assume "(k, pairs) \<in> set G"
    with G(2) have "good_bucket k pairs" by (simp add: bucket_invariant_def)
    then show "distinct (group_edges pairs)" by (rule good_bucket_edges_distinct)
  qed
  have entries: "\<forall>e\<in>set (build_edges G). length e = 4 \<and> distinct e"
    using build_edges_entries by blast
  from V(1) G(1) res keys buckets entries show thesis by (rule that)
qed


section \<open>Claims about \<open>compute_f_sf\<close>\<close>

text \<open>
  C1. For every \<open>n \<ge> 1\<close>, \<open>compute_f_sf n\<close> returns a triple \<open>(f, edges, cover)\<close> with
  \<open>0 \<le> f \<le> |sieve_square_free n|\<close>, and \<open>cover\<close> meets every entry of \<open>edges\<close>.
\<close>

theorem compute_f_sf_sound:
  assumes "1 \<le> n"
  shows "\<exists>V f edges cover. sieve_square_free n = Inr V
           \<and> compute_f_sf n = Inr (f, edges, cover)
           \<and> 0 \<le> f \<and> f \<le> int (length V) \<and> covers cover edges"
proof (rule compute_f_sf_cases [OF assms])
  fix V f edges cover
  assume "sieve_square_free n = Inr V" "compute_f_sf n = Inr (f, edges, cover)"
    "0 \<le> f" "f \<le> int (length V)" "covers cover edges"
  then show ?thesis by (intro exI conjI)
qed

theorem compute_f_sf_sound_witness:
  "(1::int) \<le> 15
   \<and> sieve_square_free 15 = Inr [1, 2, 3, 5, 6, 7, 10, 11, 13, 14, 15]
   \<and> compute_f_sf 15 = Inr (10, [[1, 6, 10, 15], [1, 6, 10, 15], [1, 6, 10, 15]], {1})
   \<and> (0::int) \<le> 10 \<and> (10::int) \<le> int (length [1, 2, 3, 5, 6, 7, 10, 11, 13, 14, 15 :: int])
   \<and> covers {1} [[1, 6, 10, 15], [1, 6, 10, 15], [1, 6, 10, 15]]"
proof -
  have "(1::int) \<le> 15" by simp
  from compute_f_sf_sound [OF this] obtain V f edges cover
    where r: "sieve_square_free 15 = Inr V" "compute_f_sf 15 = Inr (f, edges, cover)"
      "0 \<le> f" "f \<le> int (length V)" "covers cover edges"
    by blast
  from r(1) have V: "V = [1, 2, 3, 5, 6, 7, 10, 11, 13, 14, 15]"
    unfolding sieve_square_free_15 by simp
  from r(2) have e: "f = 10"
    "edges = [[1, 6, 10, 15], [1, 6, 10, 15], [1, 6, 10, 15]]" "cover = {1}"
    unfolding compute_f_sf_15 by simp_all
  from r(5) have "covers {1} [[1, 6, 10, 15], [1, 6, 10, 15], [1, 6, 10, 15]]"
    unfolding e .
  with sieve_square_free_15 compute_f_sf_15 show ?thesis by simp
qed

text \<open>
  C2. For every \<open>n \<ge> 1\<close>, the cover returned by \<open>compute_f_sf n\<close> is a minimum vertex
  cover: it is a set of vertices that meets every constructed hyperedge, no set of
  vertices that meets every hyperedge is smaller, and \<open>f = |V| - |cover|\<close>.
\<close>

theorem compute_f_sf_minimum_cover:
  assumes "1 \<le> n"
  shows "\<exists>V f edges cover. sieve_square_free n = Inr V
           \<and> compute_f_sf n = Inr (f, edges, cover)
           \<and> cover \<subseteq> set V \<and> covers cover edges
           \<and> (\<forall>C. C \<subseteq> set V \<and> covers C edges \<longrightarrow> card cover \<le> card C)
           \<and> f = int (length V) - int (card cover)"
proof (rule compute_f_sf_cases [OF assms])
  fix V f edges cover
  assume "sieve_square_free n = Inr V" "compute_f_sf n = Inr (f, edges, cover)"
    "cover \<subseteq> set V" "covers cover edges"
    "\<forall>C. C \<subseteq> set V \<and> covers C edges \<longrightarrow> card cover \<le> card C"
    "f = int (length V) - int (card cover)"
  then show ?thesis by (intro exI conjI)
qed

theorem compute_f_sf_minimum_cover_witness:
  "(1::int) \<le> 15
   \<and> sieve_square_free 15 = Inr [1, 2, 3, 5, 6, 7, 10, 11, 13, 14, 15]
   \<and> compute_f_sf 15 = Inr (10, [[1, 6, 10, 15], [1, 6, 10, 15], [1, 6, 10, 15]], {1})
   \<and> {1} \<subseteq> set [1, 2, 3, 5, 6, 7, 10, 11, 13, 14, 15 :: int]
   \<and> covers {1} [[1, 6, 10, 15], [1, 6, 10, 15], [1, 6, 10, 15]]
   \<and> {6, 10} \<subseteq> set [1, 2, 3, 5, 6, 7, 10, 11, 13, 14, 15 :: int]
   \<and> covers {6, 10} [[1, 6, 10, 15], [1, 6, 10, 15], [1, 6, 10, 15]]
   \<and> card {1 :: int} \<le> card {6, 10 :: int}
   \<and> (10::int) = int (length [1, 2, 3, 5, 6, 7, 10, 11, 13, 14, 15 :: int]) - int (card {1 :: int})"
proof -
  have "(1::int) \<le> 15" by simp
  from compute_f_sf_minimum_cover [OF this] obtain V f edges cover
    where r: "sieve_square_free 15 = Inr V" "compute_f_sf 15 = Inr (f, edges, cover)"
      "cover \<subseteq> set V" "covers cover edges"
      "\<forall>C. C \<subseteq> set V \<and> covers C edges \<longrightarrow> card cover \<le> card C"
      "f = int (length V) - int (card cover)"
    by blast
  from r(1) have V: "V = [1, 2, 3, 5, 6, 7, 10, 11, 13, 14, 15]"
    unfolding sieve_square_free_15 by simp
  from r(2) have e: "f = 10"
    "edges = [[1, 6, 10, 15], [1, 6, 10, 15], [1, 6, 10, 15]]" "cover = {1}"
    unfolding compute_f_sf_15 by simp_all
  have sub: "{6, 10} \<subseteq> set [1, 2, 3, 5, 6, 7, 10, 11, 13, 14, 15 :: int]" by simp
  have cov: "covers {6, 10} [[1, 6, 10, 15], [1, 6, 10, 15], [1, 6, 10, 15]]"
    by (simp add: covers_def)
  have c1: "covers {1} [[1, 6, 10, 15], [1, 6, 10, 15], [1, 6, 10, 15]]"
    using r(4) unfolding e .
  from r(5) have "{6, 10} \<subseteq> set V \<and> covers {6, 10} edges \<longrightarrow> card cover \<le> card {6, 10 :: int}"
    by (rule spec)
  with sub cov have le: "card {1 :: int} \<le> card {6, 10 :: int}"
    unfolding V e by (elim impE) (intro conjI)
  from sieve_square_free_15 compute_f_sf_15 sub cov c1 le show ?thesis by simp
qed

text \<open>
  The grouping and the edges at \<open>n = 15\<close>: the buckets with core \<open>6\<close>, \<open>10\<close> and \<open>15\<close>
  each generate \<open>(1, 6, 10, 15)\<close>, and no other bucket generates an edge.
\<close>

lemma group_pairs_15:
  "group_pairs (vertex_pairs [1, 2, 3, 5, 6, 7, 10, 11, 13, 14, 15]) [] = Inr
     [(2, [(1, 2), (3, 6), (5, 10), (7, 14)]), (3, [(1, 3), (2, 6), (5, 15)]),
      (5, [(1, 5), (2, 10), (3, 15)]), (6, [(1, 6), (2, 3), (10, 15)]),
      (7, [(1, 7), (2, 14)]), (10, [(1, 10), (2, 5), (6, 15)]), (11, [(1, 11)]),
      (13, [(1, 13)]), (14, [(1, 14), (2, 7)]), (15, [(1, 15), (3, 5), (6, 10)]),
      (22, [(2, 11)]), (26, [(2, 13)]), (30, [(2, 15), (3, 10), (5, 6)]),
      (21, [(3, 7), (6, 14)]), (33, [(3, 11)]), (39, [(3, 13)]),
      (42, [(3, 14), (6, 7)]), (35, [(5, 7), (10, 14)]), (55, [(5, 11)]),
      (65, [(5, 13)]), (70, [(5, 14), (7, 10)]), (66, [(6, 11)]), (78, [(6, 13)]),
      (77, [(7, 11)]), (91, [(7, 13)]), (105, [(7, 15)]), (110, [(10, 11)]),
      (130, [(10, 13)]), (143, [(11, 13)]), (154, [(11, 14)]), (165, [(11, 15)]),
      (182, [(13, 14)]), (195, [(13, 15)]), (210, [(14, 15)])]"
  by code_simp

lemma build_edges_15:
  "build_edges
     [(2, [(1, 2), (3, 6), (5, 10), (7, 14)]), (3, [(1, 3), (2, 6), (5, 15)]),
      (5, [(1, 5), (2, 10), (3, 15)]), (6, [(1, 6), (2, 3), (10, 15)]),
      (7, [(1, 7), (2, 14)]), (10, [(1, 10), (2, 5), (6, 15)]), (11, [(1, 11)]),
      (13, [(1, 13)]), (14, [(1, 14), (2, 7)]), (15, [(1, 15), (3, 5), (6, 10)]),
      (22, [(2, 11)]), (26, [(2, 13)]), (30, [(2, 15), (3, 10), (5, 6)]),
      (21, [(3, 7), (6, 14)]), (33, [(3, 11)]), (39, [(3, 13)]),
      (42, [(3, 14), (6, 7)]), (35, [(5, 7), (10, 14)]), (55, [(5, 11)]),
      (65, [(5, 13)]), (70, [(5, 14), (7, 10)]), (66, [(6, 11)]), (78, [(6, 13)]),
      (77, [(7, 11)]), (91, [(7, 13)]), (105, [(7, 15)]), (110, [(10, 11)]),
      (130, [(10, 13)]), (143, [(11, 13)]), (154, [(11, 14)]), (165, [(11, 15)]),
      (182, [(13, 14)]), (195, [(13, 15)]), (210, [(14, 15)])]
   = [[1, 6, 10, 15], [1, 6, 10, 15], [1, 6, 10, 15]]"
  by code_simp

text \<open>
  C6 (as amended). For every \<open>n \<ge> 1\<close>, the edges returned by \<open>compute_f_sf n\<close> are
  the concatenation, in the order of the buckets, of the edges generated from each
  core bucket of \<^verbatim>\<open>pair_groups\<close>. The core values of the buckets are pairwise
  different, the edges generated from one bucket contain no duplicates, and every
  entry has four pairwise distinct vertex values. Nothing is deduplicated across
  buckets.
\<close>

theorem compute_f_sf_edges_distinct_within_bucket:
  assumes "1 \<le> n"
  shows "\<exists>V G f cover. sieve_square_free n = Inr V
           \<and> group_pairs (vertex_pairs V) [] = Inr G
           \<and> compute_f_sf n = Inr (f, concat (map (\<lambda>(k, pairs). group_edges pairs) G), cover)
           \<and> distinct (map fst G)
           \<and> (\<forall>(k, pairs)\<in>set G. distinct (group_edges pairs))
           \<and> (\<forall>e\<in>set (concat (map (\<lambda>(k, pairs). group_edges pairs) G)).
                  length e = 4 \<and> distinct e)"
proof (rule compute_f_sf_buckets [OF assms])
  fix V G f cover
  assume "sieve_square_free n = Inr V" "group_pairs (vertex_pairs V) [] = Inr G"
    "compute_f_sf n = Inr (f, build_edges G, cover)"
    "distinct (map fst G)" "\<forall>(k, pairs)\<in>set G. distinct (group_edges pairs)"
    "\<forall>e\<in>set (build_edges G). length e = 4 \<and> distinct e"
  then show ?thesis unfolding build_edges_def by (intro exI conjI)
qed

theorem compute_f_sf_edges_distinct_within_bucket_witness:
  "(1::int) \<le> 15
   \<and> sieve_square_free 15 = Inr [1, 2, 3, 5, 6, 7, 10, 11, 13, 14, 15]
   \<and> (let G =
     [(2, [(1, 2), (3, 6), (5, 10), (7, 14)]), (3, [(1, 3), (2, 6), (5, 15)]),
      (5, [(1, 5), (2, 10), (3, 15)]), (6, [(1, 6), (2, 3), (10, 15)]),
      (7, [(1, 7), (2, 14)]), (10, [(1, 10), (2, 5), (6, 15)]), (11, [(1, 11)]),
      (13, [(1, 13)]), (14, [(1, 14), (2, 7)]), (15, [(1, 15), (3, 5), (6, 10)]),
      (22, [(2, 11)]), (26, [(2, 13)]), (30, [(2, 15), (3, 10), (5, 6)]),
      (21, [(3, 7), (6, 14)]), (33, [(3, 11)]), (39, [(3, 13)]),
      (42, [(3, 14), (6, 7)]), (35, [(5, 7), (10, 14)]), (55, [(5, 11)]),
      (65, [(5, 13)]), (70, [(5, 14), (7, 10)]), (66, [(6, 11)]), (78, [(6, 13)]),
      (77, [(7, 11)]), (91, [(7, 13)]), (105, [(7, 15)]), (110, [(10, 11)]),
      (130, [(10, 13)]), (143, [(11, 13)]), (154, [(11, 14)]), (165, [(11, 15)]),
      (182, [(13, 14)]), (195, [(13, 15)]), (210, [(14, 15)])]
      in group_pairs (vertex_pairs [1, 2, 3, 5, 6, 7, 10, 11, 13, 14, 15]) [] = Inr G
         \<and> compute_f_sf 15 = Inr (10, concat (map (\<lambda>(k, pairs). group_edges pairs) G), {1})
         \<and> concat (map (\<lambda>(k, pairs). group_edges pairs) G)
             = [[1, 6, 10, 15], [1, 6, 10, 15], [1, 6, 10, 15]]
         \<and> distinct (map fst G)
         \<and> list_all (\<lambda>(k, pairs). distinct (group_edges pairs)) G
         \<and> list_all (\<lambda>e. length e = 4 \<and> distinct e)
               (concat (map (\<lambda>(k, pairs). group_edges pairs) G)))
   \<and> group_edges [(1, 6), (2, 3), (10, 15)] = [[1, 6, 10, 15]]
   \<and> group_edges [(1, 10), (2, 5), (6, 15)] = [[1, 6, 10, 15]]
   \<and> group_edges [(1, 15), (3, 5), (6, 10)] = [[1, 6, 10, 15]]"
proof -
  have "(1::int) \<le> 15" by simp
  from compute_f_sf_edges_distinct_within_bucket [OF this] obtain V G f cover
    where r: "sieve_square_free 15 = Inr V" "group_pairs (vertex_pairs V) [] = Inr G"
      "compute_f_sf 15 = Inr (f, concat (map (\<lambda>(k, pairs). group_edges pairs) G), cover)"
      "distinct (map fst G)" "\<forall>(k, pairs)\<in>set G. distinct (group_edges pairs)"
      "\<forall>e\<in>set (concat (map (\<lambda>(k, pairs). group_edges pairs) G)). length e = 4 \<and> distinct e"
    by blast
  from r(1) have V: "V = [1, 2, 3, 5, 6, 7, 10, 11, 13, 14, 15]"
    unfolding sieve_square_free_15 by simp
  from r(2) have G: "G =
     [(2, [(1, 2), (3, 6), (5, 10), (7, 14)]), (3, [(1, 3), (2, 6), (5, 15)]),
      (5, [(1, 5), (2, 10), (3, 15)]), (6, [(1, 6), (2, 3), (10, 15)]),
      (7, [(1, 7), (2, 14)]), (10, [(1, 10), (2, 5), (6, 15)]), (11, [(1, 11)]),
      (13, [(1, 13)]), (14, [(1, 14), (2, 7)]), (15, [(1, 15), (3, 5), (6, 10)]),
      (22, [(2, 11)]), (26, [(2, 13)]), (30, [(2, 15), (3, 10), (5, 6)]),
      (21, [(3, 7), (6, 14)]), (33, [(3, 11)]), (39, [(3, 13)]),
      (42, [(3, 14), (6, 7)]), (35, [(5, 7), (10, 14)]), (55, [(5, 11)]),
      (65, [(5, 13)]), (70, [(5, 14), (7, 10)]), (66, [(6, 11)]), (78, [(6, 13)]),
      (77, [(7, 11)]), (91, [(7, 13)]), (105, [(7, 15)]), (110, [(10, 11)]),
      (130, [(10, 13)]), (143, [(11, 13)]), (154, [(11, 14)]), (165, [(11, 15)]),
      (182, [(13, 14)]), (195, [(13, 15)]), (210, [(14, 15)])]"
    unfolding V group_pairs_15 by simp
  from r(3) have e: "f = 10" "cover = {1}"
    "concat (map (\<lambda>(k, pairs). group_edges pairs) G)
       = [[1, 6, 10, 15], [1, 6, 10, 15], [1, 6, 10, 15]]"
    unfolding compute_f_sf_15 by simp_all
  from r(5) have b: "list_all (\<lambda>(k, pairs). distinct (group_edges pairs)) G"
    unfolding list_all_iff .
  from r(6) have c: "list_all (\<lambda>e. length e = 4 \<and> distinct e)
      (concat (map (\<lambda>(k, pairs). group_edges pairs) G))"
    unfolding list_all_iff .
  have g: "group_edges [(1, 6), (2, 3), (10, 15)] = [[1, 6, 10, 15]]"
    "group_edges [(1, 10), (2, 5), (6, 15)] = [[1, 6, 10, 15]]"
    "group_edges [(1, 15), (3, 5), (6, 10)] = [[1, 6, 10, 15]]"
    by code_simp+
  have "group_pairs (vertex_pairs [1, 2, 3, 5, 6, 7, 10, 11, 13, 14, 15]) [] = Inr G
      \<and> compute_f_sf 15 = Inr (10, concat (map (\<lambda>(k, pairs). group_edges pairs) G), {1})
      \<and> concat (map (\<lambda>(k, pairs). group_edges pairs) G)
          = [[1, 6, 10, 15], [1, 6, 10, 15], [1, 6, 10, 15]]
      \<and> distinct (map fst G)
      \<and> list_all (\<lambda>(k, pairs). distinct (group_edges pairs)) G
      \<and> list_all (\<lambda>e. length e = 4 \<and> distinct e)
            (concat (map (\<lambda>(k, pairs). group_edges pairs) G))"
    using r(2) [unfolded V] r(3) [unfolded e(1,2)] e(3) r(4) b c by (intro conjI)
  then show ?thesis
    unfolding Let_def G [symmetric] using sieve_square_free_15 g by simp
qed

text \<open>
  C6 as stated fails at \<open>n = 15\<close>: the only violating quadruple \<open>(1, 6, 10, 15)\<close> is
  generated once from each of the buckets with core \<open>6\<close>, \<open>10\<close> and \<open>15\<close>, and the
  returned list holds it three times.
\<close>

theorem compute_f_sf_15_duplicate_edges:
  "compute_f_sf 15 = Inr (10, [[1, 6, 10, 15], [1, 6, 10, 15], [1, 6, 10, 15]], {1})
   \<and> \<not> distinct [[1, 6, 10, 15], [1, 6, 10, 15], [1, 6, 10, 15 :: int]]"
  using compute_f_sf_15 by simp

text \<open>
  C7. For every \<open>n \<ge> 1\<close>, every entry of the edges returned by \<open>compute_f_sf n\<close>
  is a strictly ascending 4-tuple \<open>(a, b, c, d)\<close> of square-free integers of
  \<open>[1, n]\<close> whose product is a perfect square and with \<open>a * d \<noteq> b * c\<close>.
\<close>

theorem compute_f_sf_edges_violating:
  assumes "1 \<le> n"
  shows "\<exists>f edges cover. compute_f_sf n = Inr (f, edges, cover)
           \<and> (\<forall>e\<in>set edges. \<exists>a b c d. e = [a, b, c, d] \<and> a < b \<and> b < c \<and> c < d
                  \<and> (\<forall>x\<in>{a, b, c, d}. 1 \<le> x \<and> x \<le> n \<and> square_free x)
                  \<and> is_square (a * b * c * d) \<and> a * d \<noteq> b * c)"
proof (rule compute_f_sf_cases [OF assms])
  fix V f edges cover
  assume r: "set V \<subseteq> {1..n}" "\<forall>x\<in>set V. square_free x"
    "compute_f_sf n = Inr (f, edges, cover)"
    "\<forall>e\<in>set edges. \<exists>a b c d. e = [a, b, c, d] \<and> a < b \<and> b < c \<and> c < d
        \<and> {a, b, c, d} \<subseteq> set V \<and> is_square (a * b * c * d) \<and> a * d \<noteq> b * c"
  have "\<forall>e\<in>set edges. \<exists>a b c d. e = [a, b, c, d] \<and> a < b \<and> b < c \<and> c < d
          \<and> (\<forall>x\<in>{a, b, c, d}. 1 \<le> x \<and> x \<le> n \<and> square_free x)
          \<and> is_square (a * b * c * d) \<and> a * d \<noteq> b * c"
  proof
    fix e assume "e \<in> set edges"
    with r(4) have "\<exists>a b c d. e = [a, b, c, d] \<and> a < b \<and> b < c \<and> c < d
        \<and> {a, b, c, d} \<subseteq> set V \<and> is_square (a * b * c * d) \<and> a * d \<noteq> b * c"
      by (rule bspec)
    then obtain a b c d
      where q: "e = [a, b, c, d]" "a < b" "b < c" "c < d" "{a, b, c, d} \<subseteq> set V"
        "is_square (a * b * c * d)" "a * d \<noteq> b * c" by blast
    have v: "\<forall>x\<in>{a, b, c, d}. 1 \<le> x \<and> x \<le> n \<and> square_free x"
    proof
      fix x assume "x \<in> {a, b, c, d}"
      with q(5) have x: "x \<in> set V" by (rule subsetD)
      with r(1) have "x \<in> {1..n}" by (rule subsetD)
      moreover from r(2) x have "square_free x" by (rule bspec)
      ultimately show "1 \<le> x \<and> x \<le> n \<and> square_free x" by simp
    qed
    show "\<exists>a b c d. e = [a, b, c, d] \<and> a < b \<and> b < c \<and> c < d
          \<and> (\<forall>x\<in>{a, b, c, d}. 1 \<le> x \<and> x \<le> n \<and> square_free x)
          \<and> is_square (a * b * c * d) \<and> a * d \<noteq> b * c"
      by (rule exI [of _ a], rule exI [of _ b], rule exI [of _ c], rule exI [of _ d])
         (intro conjI q(1,2,3,4,6,7) v)
  qed
  with r(3) show ?thesis by (intro exI conjI)
qed

theorem compute_f_sf_edges_violating_witness:
  "(1::int) \<le> 15
   \<and> compute_f_sf 15 = Inr (10, [[1, 6, 10, 15], [1, 6, 10, 15], [1, 6, 10, 15]], {1})
   \<and> (1::int) < 6 \<and> (6::int) < 10 \<and> (10::int) < 15
   \<and> square_free 1 \<and> square_free 6 \<and> square_free 10 \<and> square_free 15
   \<and> is_square (1 * 6 * 10 * 15) \<and> (1::int) * 15 \<noteq> 6 * 10"
proof -
  have "(1::int) \<le> 15" by simp
  from compute_f_sf_edges_violating [OF this] obtain f edges cover
    where r: "compute_f_sf 15 = Inr (f, edges, cover)"
      "\<forall>e\<in>set edges. \<exists>a b c d. e = [a, b, c, d] \<and> a < b \<and> b < c \<and> c < d
          \<and> (\<forall>x\<in>{a, b, c, d}. 1 \<le> x \<and> x \<le> 15 \<and> square_free x)
          \<and> is_square (a * b * c * d) \<and> a * d \<noteq> b * c"
    by blast
  from r(1) have e: "edges = [[1, 6, 10, 15], [1, 6, 10, 15], [1, 6, 10, 15]]"
    unfolding compute_f_sf_15 by simp
  have "[1, 6, 10, 15] \<in> set edges" unfolding e by simp
  with r(2) have "\<exists>a b c d. [1, 6, 10, 15] = [a, b, c, d] \<and> a < b \<and> b < c \<and> c < d
          \<and> (\<forall>x\<in>{a, b, c, d}. 1 \<le> x \<and> x \<le> 15 \<and> square_free x)
          \<and> is_square (a * b * c * d) \<and> a * d \<noteq> b * c"
    by (rule bspec)
  then obtain a b c d where q: "[1, 6, 10, 15] = [a, b, c, d]"
    "\<forall>x\<in>{a, b, c, d}. 1 \<le> x \<and> x \<le> 15 \<and> square_free x"
    "is_square (a * b * c * d)" by blast
  from q(1) have abcd: "a = 1" "b = 6" "c = 10" "d = 15" by simp_all
  from q(2) have "square_free 1" "square_free 6" "square_free 10" "square_free 15"
    unfolding abcd by simp_all
  moreover from q(3) have "is_square (1 * 6 * 10 * 15)" unfolding abcd .
  ultimately show ?thesis using compute_f_sf_15 by simp
qed


end
